theory Spec2Isabelle
  imports Main
begin

section \<open>Data model\<close>

text \<open>
  A cell of the board holds one of the three string constants of the source:
  \<^verbatim>\<open>EMPTY = ''\<close>, \<^verbatim>\<open>X = 'X'\<close> and \<^verbatim>\<open>O = 'O'\<close>. A board is an array of rows, a row an
  array of cells. An action is the pair \<^verbatim>\<open>[i, j]\<close> of a row and a column number.
\<close>

datatype mark = EMPTY | MarkX | MarkO

type_synonym board = "mark list list"

type_synonym action = "int \<times> int"

text \<open>The two ways in which a call of the source can throw.\<close>

datatype error = InvalidAction | TypeError

text \<open>
  The numbers that flow through the search: the two infinities that initialise the
  bounds, and the integers returned by \<^verbatim>\<open>utility\<close>.
\<close>

datatype jsnum = NegInfinity | Num int | Infinity

text \<open>
  The second component of what \<^verbatim>\<open>maxValue\<close> and \<^verbatim>\<open>minValue\<close> return, and the result of
  \<^verbatim>\<open>minimax\<close>: \<^verbatim>\<open>null\<close>, the \<^verbatim>\<open>undefined\<close> of a variable declared without a value, or
  an action.
\<close>

datatype action_ref = Undefined | Null | Action action

fun jsnum_le :: "jsnum \<Rightarrow> jsnum \<Rightarrow> bool" where
  "jsnum_le NegInfinity _ = True"
| "jsnum_le _ Infinity = True"
| "jsnum_le (Num a) (Num b) = (a \<le> b)"
| "jsnum_le _ _ = False"

instantiation jsnum :: linorder
begin

definition less_eq_jsnum :: "jsnum \<Rightarrow> jsnum \<Rightarrow> bool" where
  "less_eq_jsnum a b = jsnum_le a b"

definition less_jsnum :: "jsnum \<Rightarrow> jsnum \<Rightarrow> bool" where
  "less_jsnum a b = (jsnum_le a b \<and> \<not> jsnum_le b a)"

instance
proof
  fix x y z :: jsnum
  show "(x < y) = (x \<le> y \<and> \<not> y \<le> x)"
    by (simp add: less_eq_jsnum_def less_jsnum_def)
  show "x \<le> x"
    by (cases x) (simp_all add: less_eq_jsnum_def)
  show "x \<le> y \<Longrightarrow> y \<le> z \<Longrightarrow> x \<le> z"
    by (cases x; cases y; cases z) (simp_all add: less_eq_jsnum_def)
  show "x \<le> y \<Longrightarrow> y \<le> x \<Longrightarrow> x = y"
    by (cases x; cases y) (simp_all add: less_eq_jsnum_def)
  show "x \<le> y \<or> y \<le> x"
    by (cases x; cases y) (auto simp add: less_eq_jsnum_def)
qed

end

section \<open>The board operations of the source\<close>

definition initialState :: board where
  "initialState =
     [[EMPTY, EMPTY, EMPTY],
      [EMPTY, EMPTY, EMPTY],
      [EMPTY, EMPTY, EMPTY]]"

text \<open>\<^verbatim>\<open>player\<close>: count the cells that are not empty; X is to move on an even count.\<close>

definition count_marks :: "board \<Rightarrow> nat" where
  "count_marks board = length (filter (\<lambda>cell. cell \<noteq> EMPTY) (concat board))"

definition player :: "board \<Rightarrow> mark" where
  "player board = (if count_marks board mod 2 = 0 then MarkX else MarkO)"

text \<open>\<^verbatim>\<open>actions\<close>: the empty cells, rows outermost, columns innermost.\<close>

definition actions :: "board \<Rightarrow> action list" where
  "actions board =
     [(int i, int j). i \<leftarrow> [0..<length board], j \<leftarrow> [0..<length (board ! i)],
        board ! i ! j = EMPTY]"

text \<open>
  \<^verbatim>\<open>result\<close>: the two checks that throw, then the clone, then the write into the clone.
  On a board with fewer than three rows \<^verbatim>\<open>board[x]\<close> can be \<^verbatim>\<open>undefined\<close>, whose
  subscript throws a \<^verbatim>\<open>TypeError\<close>; on a short row \<^verbatim>\<open>board[x][y]\<close> is \<^verbatim>\<open>undefined\<close>,
  which differs from \<^verbatim>\<open>EMPTY\<close>.
\<close>

definition acceptableValues :: "int list" where
  "acceptableValues = [0, 1, 2]"

fun result :: "board \<Rightarrow> action \<Rightarrow> error + board" where
  "result board (x, y) =
     (if x \<notin> set acceptableValues \<or> y \<notin> set acceptableValues then Inl InvalidAction
      else if length board \<le> nat x then Inl TypeError
      else if length (board ! nat x) \<le> nat y then Inl InvalidAction
      else if board ! nat x ! nat y \<noteq> EMPTY then Inl InvalidAction
      else
        let resultBoard = map (\<lambda>row. row) board
        in Inr (resultBoard[nat x := (resultBoard ! nat x)[nat y := player resultBoard]]))"

text \<open>
  \<^verbatim>\<open>winner\<close>: the eight lines in the order of the source. The loop stops at the first
  line whose three cells are equal and not empty; the source then highlights the
  cells of that line in the page and returns the mark of its first cell.
  \<open>winner_scan\<close> is the loop and gives both the line and the mark; \<open>winner\<close> is the
  returned value, \<open>highlighted\<close> the cells that are highlighted.

  The loop reads the cells of rows 0, 1 and 2 at columns 0, 1 and 2. On a board with
  fewer than three rows the source throws a \<^verbatim>\<open>TypeError\<close> at such a read; \<open>winner_scan\<close>
  has no value for that. It is the loop of the source on boards of three rows of three
  cells only, and so are \<open>winner\<close>, \<open>terminal\<close>, \<open>utility\<close> and \<open>minimax\<close>, which call
  it: what is stated about them is stated for such boards.
\<close>

definition winningConditions :: "(nat \<times> nat) list list" where
  "winningConditions =
     [[(0, 0), (0, 1), (0, 2)],
      [(1, 0), (1, 1), (1, 2)],
      [(2, 0), (2, 1), (2, 2)],
      [(0, 0), (1, 0), (2, 0)],
      [(0, 1), (1, 1), (2, 1)],
      [(0, 2), (1, 2), (2, 2)],
      [(0, 0), (1, 1), (2, 2)],
      [(0, 2), (1, 1), (2, 0)]]"

fun winner_scan :: "board \<Rightarrow> (nat \<times> nat) list list \<Rightarrow> ((nat \<times> nat) list \<times> mark) option" where
  "winner_scan board [] = None"
| "winner_scan board (condition # rest) =
     (let cells = map (\<lambda>(i, j). board ! i ! j) condition
      in if list_all (\<lambda>cell. cell \<noteq> EMPTY \<and> cell = cells ! 0) cells
         then Some (condition, cells ! 0)
         else winner_scan board rest)"

definition winner :: "board \<Rightarrow> mark option" where
  "winner board = map_option snd (winner_scan board winningConditions)"

definition highlighted :: "board \<Rightarrow> (nat \<times> nat) list" where
  "highlighted board =
     (case winner_scan board winningConditions of None \<Rightarrow> [] | Some (condition, _) \<Rightarrow> condition)"

definition terminal :: "board \<Rightarrow> bool" where
  "terminal board = (winner board \<noteq> None \<or> actions board = [])"

definition utility :: "board \<Rightarrow> int" where
  "utility board =
     (let winnerMark = winner board
      in if winnerMark = Some MarkX then 1
         else if winnerMark = Some MarkO then - 1
         else 0)"

section \<open>The search\<close>

text \<open>
  \<open>count_of m\<close> counts the cells that hold \<open>m\<close>. The number of empty cells decreases
  with every successful \<open>result\<close>, which is why the search ends.
\<close>

definition count_of :: "mark \<Rightarrow> board \<Rightarrow> nat" where
  "count_of m board = length (filter (\<lambda>cell. cell = m) (concat board))"

definition empties :: "board \<Rightarrow> nat" where
  "empties board = count_of EMPTY board"

lemma count_row_update:
  assumes "y < length row"
  shows "length (filter P (row[y := p])) + (if P (row ! y) then 1 else 0)
           = length (filter P row) + (if P p then 1 else 0)"
proof -
  have "row = take y row @ row ! y # drop (Suc y) row"
    using assms by (rule id_take_nth_drop)
  then have "length (filter P row)
      = length (filter P (take y row @ row ! y # drop (Suc y) row))"
    by simp
  moreover have "row[y := p] = take y row @ p # drop (Suc y) row"
    using assms by (rule upd_conv_take_nth_drop)
  ultimately show ?thesis by simp
qed

lemma count_board_update:
  assumes "x < length board"
  shows "length (filter P (concat (board[x := row]))) + length (filter P (board ! x))
           = length (filter P (concat board)) + length (filter P row)"
proof -
  have "board = take x board @ board ! x # drop (Suc x) board"
    using assms by (rule id_take_nth_drop)
  then have "length (filter P (concat board))
      = length (filter P (concat (take x board @ board ! x # drop (Suc x) board)))"
    by simp
  moreover have "board[x := row] = take x board @ row # drop (Suc x) board"
    using assms by (rule upd_conv_take_nth_drop)
  ultimately show ?thesis by simp
qed

lemma player_not_EMPTY: "player board \<noteq> EMPTY"
  by (simp add: player_def)

lemma result_InrD:
  assumes "result board (x, y) = Inr resultBoard"
  shows "x \<in> {0, 1, 2}" and "y \<in> {0, 1, 2}"
    and "nat x < length board" and "nat y < length (board ! nat x)"
    and "board ! nat x ! nat y = EMPTY"
    and "resultBoard = board[nat x := (board ! nat x)[nat y := player board]]"
  using assms by (auto simp: acceptableValues_def split: if_splits)

lemma count_result:
  assumes "result board action = Inr resultBoard"
  shows "length (filter P (concat resultBoard)) + (if P EMPTY then 1 else 0)
           = length (filter P (concat board)) + (if P (player board) then 1 else 0)"
proof -
  obtain x y where a: "action = (x, y)" by (cases action)
  note r = result_InrD [OF assms [unfolded a]]
  from count_row_update [OF r(4), of P "player board"] r(5)
    count_board_update [OF r(3), of P "(board ! nat x)[nat y := player board]"]
  show ?thesis unfolding r(6) by (auto split: if_splits)
qed

lemma count_of_result:
  assumes "result board action = Inr resultBoard"
  shows "count_of m resultBoard + (if m = EMPTY then 1 else 0)
           = count_of m board + (if m = player board then 1 else 0)"
  using count_result [OF assms, of "\<lambda>cell. cell = m"]
  by (simp add: count_of_def eq_commute)

lemma result_decreases:
  assumes "result board action = Inr resultBoard"
  shows "empties resultBoard < empties board"
  using count_of_result [OF assms, of EMPTY] player_not_EMPTY [of board]
  by (simp add: empties_def)

text \<open>
  \<^verbatim>\<open>maxValue\<close> and \<^verbatim>\<open>minValue\<close>, each with its \<^verbatim>\<open>for\<close> loop over the actions as a
  function of its own (\<open>maxLoop\<close>, \<open>minLoop\<close>) that carries the loop's variables:
  the actions still to try, \<^verbatim>\<open>alpha\<close>, \<^verbatim>\<open>beta\<close>, the best value and the best action
  so far. A \<^verbatim>\<open>break\<close> returns at once, as does an exception of \<^verbatim>\<open>result\<close>.
\<close>

function maxValue :: "board \<Rightarrow> jsnum \<Rightarrow> jsnum \<Rightarrow> error + (jsnum \<times> action_ref)"
  and minValue :: "board \<Rightarrow> jsnum \<Rightarrow> jsnum \<Rightarrow> error + (jsnum \<times> action_ref)"
  and maxLoop :: "board \<Rightarrow> action list \<Rightarrow> jsnum \<Rightarrow> jsnum \<Rightarrow> jsnum \<Rightarrow> action_ref
                    \<Rightarrow> error + (jsnum \<times> action_ref)"
  and minLoop :: "board \<Rightarrow> action list \<Rightarrow> jsnum \<Rightarrow> jsnum \<Rightarrow> jsnum \<Rightarrow> action_ref
                    \<Rightarrow> error + (jsnum \<times> action_ref)"
where
  "maxValue board alpha beta =
     (if terminal board then Inr (Num (utility board), Null)
      else maxLoop board (actions board) alpha beta NegInfinity Undefined)"
| "minValue board alpha beta =
     (if terminal board then Inr (Num (utility board), Null)
      else minLoop board (actions board) alpha beta Infinity Undefined)"
| "maxLoop board [] alpha beta maxVal bestAction = Inr (maxVal, bestAction)"
| "maxLoop board (action # rest) alpha beta maxVal bestAction =
     (case result board action of
        Inl e \<Rightarrow> Inl e
      | Inr resultBoard \<Rightarrow>
         (case minValue resultBoard alpha beta of
            Inl e \<Rightarrow> Inl e
          | Inr (minVal, _) \<Rightarrow>
             (let (maxVal', bestAction') =
                    (if minVal > maxVal then (minVal, Action action) else (maxVal, bestAction));
                  alpha' = max alpha maxVal'
              in if beta \<le> alpha' then Inr (maxVal', bestAction')
                 else maxLoop board rest alpha' beta maxVal' bestAction')))"
| "minLoop board [] alpha beta minVal bestAction = Inr (minVal, bestAction)"
| "minLoop board (action # rest) alpha beta minVal bestAction =
     (case result board action of
        Inl e \<Rightarrow> Inl e
      | Inr resultBoard \<Rightarrow>
         (case maxValue resultBoard alpha beta of
            Inl e \<Rightarrow> Inl e
          | Inr (maxVal, _) \<Rightarrow>
             (let (minVal', bestAction') =
                    (if maxVal < minVal then (maxVal, Action action) else (minVal, bestAction));
                  beta' = min beta minVal'
              in if beta' \<le> alpha then Inr (minVal', bestAction')
                 else minLoop board rest alpha beta' minVal' bestAction')))"
  by pat_completeness auto
termination
proof (relation "measures
    [\<lambda>c. case c of
            Inl (Inl (b, _)) \<Rightarrow> empties b
          | Inl (Inr (b, _)) \<Rightarrow> empties b
          | Inr (Inl (b, _)) \<Rightarrow> empties b
          | Inr (Inr (b, _)) \<Rightarrow> empties b,
     \<lambda>c. case c of
            Inl (Inl _) \<Rightarrow> Suc 0
          | Inl (Inr _) \<Rightarrow> Suc 0
          | Inr (Inl _) \<Rightarrow> 0
          | Inr (Inr _) \<Rightarrow> 0,
     \<lambda>c. case c of
            Inl (Inl _) \<Rightarrow> 0
          | Inl (Inr _) \<Rightarrow> 0
          | Inr (Inl (_, as, _)) \<Rightarrow> length as
          | Inr (Inr (_, as, _)) \<Rightarrow> length as]", goal_cases)
  case 1
  show ?case by simp
next
  case 2
  show ?case by simp
next
  case 3
  show ?case by simp
next
  case (4 board action rest alpha beta maxVal bestAction resultBoard)
  have "empties resultBoard < empties board"
    using 4 by (rule result_decreases)
  then show ?case by simp
next
  case 5
  show ?case by simp
next
  case (6 board action rest alpha beta minVal bestAction resultBoard)
  have "empties resultBoard < empties board"
    using 6 by (rule result_decreases)
  then show ?case by simp
next
  case 7
  show ?case by simp
qed

text \<open>
  \<^verbatim>\<open>minimax\<close>: \<^verbatim>\<open>null\<close> on a terminal board, otherwise the action of \<^verbatim>\<open>maxValue\<close> or
  \<^verbatim>\<open>minValue\<close>, called with the default bounds.
\<close>

definition minimax :: "board \<Rightarrow> error + action_ref" where
  "minimax board =
     (if terminal board then Inr Null
      else if player board = MarkX
           then (case maxValue board NegInfinity Infinity of
                   Inl e \<Rightarrow> Inl e | Inr r \<Rightarrow> Inr (snd r))
           else (case minValue board NegInfinity Infinity of
                   Inl e \<Rightarrow> Inl e | Inr r \<Rightarrow> Inr (snd r)))"


section \<open>Boards of the game\<close>

text \<open>A well-formed board has three rows of three cells.\<close>

definition wf_board :: "board \<Rightarrow> bool" where
  "wf_board board = (length board = 3 \<and> list_all (\<lambda>row. length row = 3) board)"

text \<open>
  The boards that can be reached from the initial board by successful calls of
  \<open>result\<close>, and those reached by play that stops at a terminal board.
\<close>

inductive reachable :: "board \<Rightarrow> bool" where
  reachable_initial: "reachable initialState"
| reachable_result:
    "reachable board \<Longrightarrow> result board action = Inr resultBoard \<Longrightarrow> reachable resultBoard"

inductive legal_play :: "board \<Rightarrow> bool" where
  legal_initial: "legal_play initialState"
| legal_result:
    "legal_play board \<Longrightarrow> \<not> terminal board \<Longrightarrow> result board action = Inr resultBoard
      \<Longrightarrow> legal_play resultBoard"

section \<open>The value of a position\<close>

text \<open>
  The game-theoretic value that the search is measured against: the utility of a
  terminal board, and otherwise the largest value of a successor when X is to move,
  the smallest when O is to move. No bounds, no pruning.
\<close>

definition children :: "board \<Rightarrow> board list" where
  "children board =
     [resultBoard. action \<leftarrow> actions board, Inr resultBoard \<leftarrow> [result board action]]"

lemma children_decrease:
  assumes "child \<in> set (children board)"
  shows "empties child < empties board"
proof -
  from assms obtain action where "result board action = Inr child"
    by (auto simp: children_def split: sum.splits)
  then show ?thesis by (rule result_decreases)
qed

function gameValue :: "board \<Rightarrow> int" where
  "gameValue board =
     (if terminal board then utility board
      else if player board = MarkX then Max (set (map gameValue (children board)))
      else Min (set (map gameValue (children board))))"
  by pat_completeness auto
termination
  by (relation "measure empties") (simp_all add: children_decrease)

text \<open>
  An action is optimal on a board when \<open>result\<close> accepts it and no other action leads
  to a better successor for the player to move: none with a larger value for X, none
  with a smaller value for O.
\<close>

definition optimal :: "board \<Rightarrow> action \<Rightarrow> bool" where
  "optimal board action =
     (case result board action of
        Inl _ \<Rightarrow> False
      | Inr resultBoard \<Rightarrow>
          list_all (\<lambda>other. if player board = MarkX then gameValue other \<le> gameValue resultBoard
                            else gameValue resultBoard \<le> gameValue other)
            (children board))"

section \<open>Self-play\<close>

text \<open>
  Both sides play the action of \<open>minimax\<close> until the board is terminal. A call of
  \<^verbatim>\<open>result\<close> with \<^verbatim>\<open>null\<close> in place of an action throws a \<^verbatim>\<open>TypeError\<close>.
\<close>

function selfPlay :: "board \<Rightarrow> error + board" where
  "selfPlay board =
     (if terminal board then Inr board
      else case minimax board of
             Inl e \<Rightarrow> Inl e
           | Inr (Action action) \<Rightarrow>
               (case result board action of
                  Inl e \<Rightarrow> Inl e
                | Inr resultBoard \<Rightarrow> selfPlay resultBoard)
           | Inr _ \<Rightarrow> Inl TypeError)"
  by pat_completeness auto
termination
  by (relation "measure empties") (simp_all add: result_decreases)


section \<open>The call of \<open>result\<close> in the store\<close>

text \<open>
  Arrays are objects. A store is the list of the objects allocated so far, an object
  is known by its index, and a board is an array of references to its rows. \<open>row_at\<close>
  and \<open>board_at\<close> read a row and a board from the store. \<open>result_store\<close> is \<^verbatim>\<open>result\<close>
  with its effect on the store: the two checks, then the new outer array and a copy of
  every row, then the write of \<^verbatim>\<open>player(resultBoard)\<close> into the copy of row \<^verbatim>\<open>x\<close>. It
  returns the store after the call and the reference of the new board, or the error.
\<close>

datatype obj = Cells "mark list" | Rows "nat list"

type_synonym store = "obj list"

definition row_at :: "store \<Rightarrow> nat \<Rightarrow> mark list option" where
  "row_at s ref =
     (if ref < length s then (case s ! ref of Cells cells \<Rightarrow> Some cells | Rows _ \<Rightarrow> None) else None)"

definition board_at :: "store \<Rightarrow> nat \<Rightarrow> board option" where
  "board_at s ref =
     (if ref < length s
      then (case s ! ref of Rows refs \<Rightarrow> those (map (row_at s) refs) | Cells _ \<Rightarrow> None)
      else None)"

definition result_store :: "store \<Rightarrow> nat \<Rightarrow> action \<Rightarrow> store \<times> (error + nat)" where
  "result_store s ref action =
     (case board_at s ref of
        None \<Rightarrow> (s, Inl TypeError)
      | Some board \<Rightarrow>
          (let (x, y) = action in
           if x \<notin> set acceptableValues \<or> y \<notin> set acceptableValues then (s, Inl InvalidAction)
           else if length board \<le> nat x then (s, Inl TypeError)
           else if length (board ! nat x) \<le> nat y then (s, Inl InvalidAction)
           else if board ! nat x ! nat y \<noteq> EMPTY then (s, Inl InvalidAction)
           else
             let new = length s;
                 s1 = s @ Rows (map (\<lambda>k. Suc (new + k)) [0..<length board]) # map Cells board;
                 mark = (case board_at s1 new of None \<Rightarrow> EMPTY | Some resultBoard \<Rightarrow> player resultBoard);
                 rowRef = Suc (new + nat x);
                 cells = (case row_at s1 rowRef of None \<Rightarrow> [] | Some cells \<Rightarrow> cells)
             in (s1[rowRef := Cells (cells[nat y := mark])], Inr new)))"

section \<open>Auxiliary notions for the proofs\<close>

text \<open>
  \<open>line x y z\<close> says that three cells hold the same mark; \<open>odd_marks\<close> is the parity
  of the number of marks in a list of cells.
\<close>

definition line :: "mark \<Rightarrow> mark \<Rightarrow> mark \<Rightarrow> bool" where
  "line x y z = (x \<noteq> EMPTY \<and> y = x \<and> z = x)"

fun odd_marks :: "mark list \<Rightarrow> bool" where
  "odd_marks [] = False"
| "odd_marks (c # cs) = (if c = EMPTY then odd_marks cs else \<not> odd_marks cs)"

text \<open>
  The cell at a position, a line whose cells are equal and not empty, as the loop of
  \<^verbatim>\<open>winner\<close> tests it, and a line held by one mark.
\<close>

definition cell :: "board \<Rightarrow> nat \<times> nat \<Rightarrow> mark" where
  "cell board p = board ! fst p ! snd p"

definition complete :: "board \<Rightarrow> (nat \<times> nat) list \<Rightarrow> bool" where
  "complete board condition =
     list_all (\<lambda>p. cell board p \<noteq> EMPTY \<and> cell board p = cell board (hd condition)) condition"

definition has_line :: "mark \<Rightarrow> board \<Rightarrow> bool" where
  "has_line m board = list_ex (list_all (\<lambda>p. cell board p = m)) winningConditions"

text \<open>
  One pass through the body of the loop of \<^verbatim>\<open>maxValue\<close>, cut at the two calls it
  makes: \<open>maxChild\<close> continues from the value of \<^verbatim>\<open>result\<close>, \<open>maxNext\<close> from the
  value of the recursive call. The same for \<^verbatim>\<open>minValue\<close>.
\<close>

definition maxNext :: "board \<Rightarrow> action \<Rightarrow> action list \<Rightarrow> jsnum \<Rightarrow> jsnum \<Rightarrow> jsnum \<Rightarrow> action_ref
    \<Rightarrow> error + (jsnum \<times> action_ref) \<Rightarrow> error + (jsnum \<times> action_ref)" where
  "maxNext board action rest alpha beta maxVal bestAction r =
     (case r of
            Inl e \<Rightarrow> Inl e
          | Inr (minVal, _) \<Rightarrow>
             (let (maxVal', bestAction') =
                    (if minVal > maxVal then (minVal, Action action) else (maxVal, bestAction));
                  alpha' = max alpha maxVal'
              in if beta \<le> alpha' then Inr (maxVal', bestAction')
                 else maxLoop board rest alpha' beta maxVal' bestAction'))"

definition maxChild :: "board \<Rightarrow> action \<Rightarrow> action list \<Rightarrow> jsnum \<Rightarrow> jsnum \<Rightarrow> jsnum \<Rightarrow> action_ref
    \<Rightarrow> error + board \<Rightarrow> error + (jsnum \<times> action_ref)" where
  "maxChild board action rest alpha beta maxVal bestAction rb =
     (case rb of
        Inl e \<Rightarrow> Inl e
      | Inr resultBoard \<Rightarrow> maxNext board action rest alpha beta maxVal bestAction (minValue resultBoard alpha beta))"

definition minNext :: "board \<Rightarrow> action \<Rightarrow> action list \<Rightarrow> jsnum \<Rightarrow> jsnum \<Rightarrow> jsnum \<Rightarrow> action_ref
    \<Rightarrow> error + (jsnum \<times> action_ref) \<Rightarrow> error + (jsnum \<times> action_ref)" where
  "minNext board action rest alpha beta minVal bestAction r =
     (case r of
            Inl e \<Rightarrow> Inl e
          | Inr (maxVal, _) \<Rightarrow>
             (let (minVal', bestAction') =
                    (if maxVal < minVal then (maxVal, Action action) else (minVal, bestAction));
                  beta' = min beta minVal'
              in if beta' \<le> alpha then Inr (minVal', bestAction')
                 else minLoop board rest alpha beta' minVal' bestAction'))"

definition minChild :: "board \<Rightarrow> action \<Rightarrow> action list \<Rightarrow> jsnum \<Rightarrow> jsnum \<Rightarrow> jsnum \<Rightarrow> action_ref
    \<Rightarrow> error + board \<Rightarrow> error + (jsnum \<times> action_ref)" where
  "minChild board action rest alpha beta minVal bestAction rb =
     (case rb of
        Inl e \<Rightarrow> Inl e
      | Inr resultBoard \<Rightarrow> minNext board action rest alpha beta minVal bestAction (maxValue resultBoard alpha beta))"

text \<open>
  What a search with the bounds \<open>alpha\<close> and \<open>beta\<close> promises about its result \<open>r\<close>
  when the true value is \<open>v\<close>: at or below \<open>alpha\<close> the result is an upper bound of
  the value, at or above \<open>beta\<close> a lower bound, and strictly between them it is the
  value.
\<close>

definition agrees :: "'a::linorder \<Rightarrow> 'a \<Rightarrow> 'a \<Rightarrow> 'a \<Rightarrow> bool" where
  "agrees alpha beta v r =
     ((r \<le> alpha \<longrightarrow> v \<le> r) \<and> (alpha < r \<and> r < beta \<longrightarrow> r = v) \<and> (beta \<le> r \<longrightarrow> r \<le> v))"

text \<open>
  The value of the successor by an action, the largest and the smallest such value
  over a list of actions, and the first action of a board whose successor has the
  value of the board.
\<close>

definition childValue :: "board \<Rightarrow> action \<Rightarrow> int" where
  "childValue board action =
     (case result board action of Inl _ \<Rightarrow> 0 | Inr resultBoard \<Rightarrow> gameValue resultBoard)"

fun maxOver :: "board \<Rightarrow> action list \<Rightarrow> jsnum" where
  "maxOver board [] = NegInfinity"
| "maxOver board (action # rest) = max (Num (childValue board action)) (maxOver board rest)"

fun minOver :: "board \<Rightarrow> action list \<Rightarrow> jsnum" where
  "minOver board [] = Infinity"
| "minOver board (action # rest) = min (Num (childValue board action)) (minOver board rest)"

definition pick :: "action option \<Rightarrow> action_ref" where
  "pick found = (case found of None \<Rightarrow> Undefined | Some action \<Rightarrow> Action action)"

definition first_best :: "board \<Rightarrow> action option" where
  "first_best board = find (\<lambda>action. childValue board action = gameValue board) (actions board)"

declare maxValue.simps [simp del] minValue.simps [simp del] maxLoop.simps(2) [simp del]
  minLoop.simps(2) [simp del] gameValue.simps [simp del] selfPlay.simps [simp del]

section \<open>Equations for boards written out cell by cell\<close>

text \<open>
  On a board given as three rows of three cells the operations unfold to the
  following closed forms.
\<close>

lemma odd_marks_count: "odd_marks cs = odd (length (filter (\<lambda>c. c \<noteq> EMPTY) cs))"
  by (induction cs) auto

lemma player_3x3:
  "player [[a, b, c], [d, e, f], [g, h, i]] =
     (if odd_marks [a, b, c, d, e, f, g, h, i] then MarkO else MarkX)"
proof -
  have "concat [[a, b, c], [d, e, f], [g, h, i]] = [a, b, c, d, e, f, g, h, i]" by simp
  then have "count_marks [[a, b, c], [d, e, f], [g, h, i]]
      = length (filter (\<lambda>c. c \<noteq> EMPTY) [a, b, c, d, e, f, g, h, i])"
    unfolding count_marks_def by (rule arg_cong)
  then show ?thesis
    unfolding player_def odd_marks_count even_iff_mod_2_eq_zero by simp
qed

lemma scan_step:
  "winner_scan board ([(i1, j1), (i2, j2), (i3, j3)] # rest) =
     (if line (board ! i1 ! j1) (board ! i2 ! j2) (board ! i3 ! j3)
      then Some ([(i1, j1), (i2, j2), (i3, j3)], board ! i1 ! j1)
      else winner_scan board rest)"
proof -
  have "list_all (\<lambda>cell. cell \<noteq> EMPTY \<and> cell = board ! i1 ! j1)
          [board ! i1 ! j1, board ! i2 ! j2, board ! i3 ! j3]
        = line (board ! i1 ! j1) (board ! i2 ! j2) (board ! i3 ! j3)"
    by (auto simp: line_def)
  then show ?thesis by (simp add: Let_def)
qed

lemma scan_3x3:
  "winner_scan [[a, b, c], [d, e, f], [g, h, i]] winningConditions =
     (if line a b c then Some ([(0, 0), (0, 1), (0, 2)], a)
      else if line d e f then Some ([(1, 0), (1, 1), (1, 2)], d)
      else if line g h i then Some ([(2, 0), (2, 1), (2, 2)], g)
      else if line a d g then Some ([(0, 0), (1, 0), (2, 0)], a)
      else if line b e h then Some ([(0, 1), (1, 1), (2, 1)], b)
      else if line c f i then Some ([(0, 2), (1, 2), (2, 2)], c)
      else if line a e i then Some ([(0, 0), (1, 1), (2, 2)], a)
      else if line c e g then Some ([(0, 2), (1, 1), (2, 0)], c)
      else None)"
  unfolding winningConditions_def scan_step
  by (simp only: nth_Cons_0 nth_Cons_Suc numeral_2_eq_2 One_nat_def winner_scan.simps)

lemma winner_3x3:
  "winner [[a, b, c], [d, e, f], [g, h, i]] =
     (if line a b c then Some a
      else if line d e f then Some d
      else if line g h i then Some g
      else if line a d g then Some a
      else if line b e h then Some b
      else if line c f i then Some c
      else if line a e i then Some a
      else if line c e g then Some c
      else None)"
  unfolding winner_def scan_3x3 by simp

lemma row_actions:
  "concat (map (\<lambda>j. if [x, y, z] ! j = EMPTY then [(r, int j)] else []) [0..<length [x, y, z]]) =
     (if x = EMPTY then [(r, 0)] else []) @ (if y = EMPTY then [(r, 1)] else []) @
     (if z = EMPTY then [(r, 2)] else [])"
proof -
  have u: "[0..<3] = [0, Suc 0, Suc (Suc 0)]"
    by (simp add: upt_rec numeral_eq_Suc)
  show ?thesis by (simp add: u)
qed

lemma actions_3x3:
  "actions [[a, b, c], [d, e, f], [g, h, i]] =
     (if a = EMPTY then [(0, 0)] else []) @ (if b = EMPTY then [(0, 1)] else []) @
     (if c = EMPTY then [(0, 2)] else []) @ (if d = EMPTY then [(1, 0)] else []) @
     (if e = EMPTY then [(1, 1)] else []) @ (if f = EMPTY then [(1, 2)] else []) @
     (if g = EMPTY then [(2, 0)] else []) @ (if h = EMPTY then [(2, 1)] else []) @
     (if i = EMPTY then [(2, 2)] else [])"
proof -
  have u: "[0..<length [[a, b, c], [d, e, f], [g, h, i]]] = [0, Suc 0, Suc (Suc 0)]"
    by (simp add: upt_rec numeral_eq_Suc)
  have "actions [[a, b, c], [d, e, f], [g, h, i]] =
      concat (map (\<lambda>j. if [a, b, c] ! j = EMPTY then [(0, int j)] else []) [0..<length [a, b, c]])
    @ concat (map (\<lambda>j. if [d, e, f] ! j = EMPTY then [(1, int j)] else []) [0..<length [d, e, f]])
    @ concat (map (\<lambda>j. if [g, h, i] ! j = EMPTY then [(2, int j)] else []) [0..<length [g, h, i]])"
    unfolding actions_def u
    by (simp only: list.map concat.simps nth_Cons_0 nth_Cons_Suc append_Nil2
          of_nat_0 of_nat_Suc) simp
  then show ?thesis
    by (simp only: row_actions append_assoc)
qed


lemma jsnum_less_simps:
  "Num a < Num b \<longleftrightarrow> a < b" "NegInfinity < Num a" "Num a < Infinity" "NegInfinity < Infinity"
  "\<not> Infinity < x" "\<not> x < NegInfinity"
  by (cases x, auto simp add: less_jsnum_def)+

lemma jsnum_le_simps:
  "Num a \<le> Num b \<longleftrightarrow> a \<le> b" "NegInfinity \<le> x" "x \<le> Infinity"
  "\<not> Infinity \<le> Num a" "\<not> Num a \<le> NegInfinity" "\<not> Infinity \<le> NegInfinity"
  by (cases x, auto simp add: less_eq_jsnum_def)+

lemma result_00:
  "result [[a, b, c], [d, e, f], [g, h, i]] (0, 0) =
     (if a = EMPTY then Inr [[player [[a, b, c], [d, e, f], [g, h, i]], b, c], [d, e, f], [g, h, i]] else Inl InvalidAction)"
  by (simp add: acceptableValues_def)

lemma result_01:
  "result [[a, b, c], [d, e, f], [g, h, i]] (0, 1) =
     (if b = EMPTY then Inr [[a, player [[a, b, c], [d, e, f], [g, h, i]], c], [d, e, f], [g, h, i]] else Inl InvalidAction)"
  by (simp add: acceptableValues_def)

lemma result_02:
  "result [[a, b, c], [d, e, f], [g, h, i]] (0, 2) =
     (if c = EMPTY then Inr [[a, b, player [[a, b, c], [d, e, f], [g, h, i]]], [d, e, f], [g, h, i]] else Inl InvalidAction)"
  by (simp add: acceptableValues_def)

lemma result_10:
  "result [[a, b, c], [d, e, f], [g, h, i]] (1, 0) =
     (if d = EMPTY then Inr [[a, b, c], [player [[a, b, c], [d, e, f], [g, h, i]], e, f], [g, h, i]] else Inl InvalidAction)"
  by (simp add: acceptableValues_def)

lemma result_11:
  "result [[a, b, c], [d, e, f], [g, h, i]] (1, 1) =
     (if e = EMPTY then Inr [[a, b, c], [d, player [[a, b, c], [d, e, f], [g, h, i]], f], [g, h, i]] else Inl InvalidAction)"
  by (simp add: acceptableValues_def)

lemma result_12:
  "result [[a, b, c], [d, e, f], [g, h, i]] (1, 2) =
     (if f = EMPTY then Inr [[a, b, c], [d, e, player [[a, b, c], [d, e, f], [g, h, i]]], [g, h, i]] else Inl InvalidAction)"
  by (simp add: acceptableValues_def)

lemma result_20:
  "result [[a, b, c], [d, e, f], [g, h, i]] (2, 0) =
     (if g = EMPTY then Inr [[a, b, c], [d, e, f], [player [[a, b, c], [d, e, f], [g, h, i]], h, i]] else Inl InvalidAction)"
  by (simp add: acceptableValues_def)

lemma result_21:
  "result [[a, b, c], [d, e, f], [g, h, i]] (2, 1) =
     (if h = EMPTY then Inr [[a, b, c], [d, e, f], [g, player [[a, b, c], [d, e, f], [g, h, i]], i]] else Inl InvalidAction)"
  by (simp add: acceptableValues_def)

lemma result_22:
  "result [[a, b, c], [d, e, f], [g, h, i]] (2, 2) =
     (if i = EMPTY then Inr [[a, b, c], [d, e, f], [g, h, player [[a, b, c], [d, e, f], [g, h, i]]]] else Inl InvalidAction)"
  by (simp add: acceptableValues_def)

lemmas result_3x3 = result_00 result_01 result_02 result_10 result_11 result_12 result_20 result_21 result_22

lemma terminal_3x3:
  "terminal [[a, b, c], [d, e, f], [g, h, i]] = (winner [[a, b, c], [d, e, f], [g, h, i]] \<noteq> None \<or> (a \<noteq> EMPTY \<and> b \<noteq> EMPTY \<and> c \<noteq> EMPTY \<and> d \<noteq> EMPTY \<and> e \<noteq> EMPTY \<and> f \<noteq> EMPTY \<and> g \<noteq> EMPTY \<and> h \<noteq> EMPTY \<and> i \<noteq> EMPTY))"
  unfolding terminal_def actions_3x3 by simp



subsection \<open>The steps of each loop\<close>

lemma maxLoop_Cons:
  "maxLoop board (action # rest) alpha beta maxVal bestAction =
     maxChild board action rest alpha beta maxVal bestAction (result board action)"
  by (simp only: maxLoop.simps maxChild_def maxNext_def)

lemma minLoop_Cons:
  "minLoop board (action # rest) alpha beta minVal bestAction =
     minChild board action rest alpha beta minVal bestAction (result board action)"
  by (simp only: minLoop.simps minChild_def minNext_def)

lemma maxChild_Inr:
  "maxChild board action rest alpha beta maxVal bestAction (Inr resultBoard) =
     maxNext board action rest alpha beta maxVal bestAction (minValue resultBoard alpha beta)"
  by (simp only: maxChild_def sum.case)

lemma minChild_Inr:
  "minChild board action rest alpha beta minVal bestAction (Inr resultBoard) =
     minNext board action rest alpha beta minVal bestAction (maxValue resultBoard alpha beta)"
  by (simp only: minChild_def sum.case)

lemma maxNext_Inr:
  "maxNext board action rest alpha beta maxVal bestAction (Inr (minVal, m)) =
     (if maxVal < minVal
      then (if beta \<le> max alpha minVal then Inr (minVal, Action action)
            else maxLoop board rest (max alpha minVal) beta minVal (Action action))
      else (if beta \<le> max alpha maxVal then Inr (maxVal, bestAction)
            else maxLoop board rest (max alpha maxVal) beta maxVal bestAction))"
  by (simp add: maxNext_def)

lemma minNext_Inr:
  "minNext board action rest alpha beta minVal bestAction (Inr (maxVal, m)) =
     (if maxVal < minVal
      then (if min beta maxVal \<le> alpha then Inr (maxVal, Action action)
            else minLoop board rest alpha (min beta maxVal) maxVal (Action action))
      else (if min beta minVal \<le> alpha then Inr (minVal, bestAction)
            else minLoop board rest alpha (min beta minVal) minVal bestAction))"
  by (simp add: minNext_def)



lemma jsnum_table_less:
  "(NegInfinity < NegInfinity) = False"
  "(NegInfinity < Num (- 1)) = True"
  "(NegInfinity < Num 0) = True"
  "(NegInfinity < Num 1) = True"
  "(NegInfinity < Infinity) = True"
  "(Num (- 1) < NegInfinity) = False"
  "(Num (- 1) < Num (- 1)) = False"
  "(Num (- 1) < Num 0) = True"
  "(Num (- 1) < Num 1) = True"
  "(Num (- 1) < Infinity) = True"
  "(Num 0 < NegInfinity) = False"
  "(Num 0 < Num (- 1)) = False"
  "(Num 0 < Num 0) = False"
  "(Num 0 < Num 1) = True"
  "(Num 0 < Infinity) = True"
  "(Num 1 < NegInfinity) = False"
  "(Num 1 < Num (- 1)) = False"
  "(Num 1 < Num 0) = False"
  "(Num 1 < Num 1) = False"
  "(Num 1 < Infinity) = True"
  "(Infinity < NegInfinity) = False"
  "(Infinity < Num (- 1)) = False"
  "(Infinity < Num 0) = False"
  "(Infinity < Num 1) = False"
  "(Infinity < Infinity) = False"
  by (simp_all add: jsnum_less_simps)

lemma jsnum_table_le:
  "(NegInfinity \<le> NegInfinity) = True"
  "(NegInfinity \<le> Num (- 1)) = True"
  "(NegInfinity \<le> Num 0) = True"
  "(NegInfinity \<le> Num 1) = True"
  "(NegInfinity \<le> Infinity) = True"
  "(Num (- 1) \<le> NegInfinity) = False"
  "(Num (- 1) \<le> Num (- 1)) = True"
  "(Num (- 1) \<le> Num 0) = True"
  "(Num (- 1) \<le> Num 1) = True"
  "(Num (- 1) \<le> Infinity) = True"
  "(Num 0 \<le> NegInfinity) = False"
  "(Num 0 \<le> Num (- 1)) = False"
  "(Num 0 \<le> Num 0) = True"
  "(Num 0 \<le> Num 1) = True"
  "(Num 0 \<le> Infinity) = True"
  "(Num 1 \<le> NegInfinity) = False"
  "(Num 1 \<le> Num (- 1)) = False"
  "(Num 1 \<le> Num 0) = False"
  "(Num 1 \<le> Num 1) = True"
  "(Num 1 \<le> Infinity) = True"
  "(Infinity \<le> NegInfinity) = False"
  "(Infinity \<le> Num (- 1)) = False"
  "(Infinity \<le> Num 0) = False"
  "(Infinity \<le> Num 1) = False"
  "(Infinity \<le> Infinity) = True"
  by (simp_all add: jsnum_le_simps)

lemma jsnum_table_max:
  "max (NegInfinity) (NegInfinity) = NegInfinity"
  "max (NegInfinity) (Num (- 1)) = Num (- 1)"
  "max (NegInfinity) (Num 0) = Num 0"
  "max (NegInfinity) (Num 1) = Num 1"
  "max (NegInfinity) (Infinity) = Infinity"
  "max (Num (- 1)) (NegInfinity) = Num (- 1)"
  "max (Num (- 1)) (Num (- 1)) = Num (- 1)"
  "max (Num (- 1)) (Num 0) = Num 0"
  "max (Num (- 1)) (Num 1) = Num 1"
  "max (Num (- 1)) (Infinity) = Infinity"
  "max (Num 0) (NegInfinity) = Num 0"
  "max (Num 0) (Num (- 1)) = Num 0"
  "max (Num 0) (Num 0) = Num 0"
  "max (Num 0) (Num 1) = Num 1"
  "max (Num 0) (Infinity) = Infinity"
  "max (Num 1) (NegInfinity) = Num 1"
  "max (Num 1) (Num (- 1)) = Num 1"
  "max (Num 1) (Num 0) = Num 1"
  "max (Num 1) (Num 1) = Num 1"
  "max (Num 1) (Infinity) = Infinity"
  "max (Infinity) (NegInfinity) = Infinity"
  "max (Infinity) (Num (- 1)) = Infinity"
  "max (Infinity) (Num 0) = Infinity"
  "max (Infinity) (Num 1) = Infinity"
  "max (Infinity) (Infinity) = Infinity"
  by (simp_all add: max_def jsnum_le_simps)

lemma jsnum_table_min:
  "min (NegInfinity) (NegInfinity) = NegInfinity"
  "min (NegInfinity) (Num (- 1)) = NegInfinity"
  "min (NegInfinity) (Num 0) = NegInfinity"
  "min (NegInfinity) (Num 1) = NegInfinity"
  "min (NegInfinity) (Infinity) = NegInfinity"
  "min (Num (- 1)) (NegInfinity) = NegInfinity"
  "min (Num (- 1)) (Num (- 1)) = Num (- 1)"
  "min (Num (- 1)) (Num 0) = Num (- 1)"
  "min (Num (- 1)) (Num 1) = Num (- 1)"
  "min (Num (- 1)) (Infinity) = Num (- 1)"
  "min (Num 0) (NegInfinity) = NegInfinity"
  "min (Num 0) (Num (- 1)) = Num (- 1)"
  "min (Num 0) (Num 0) = Num 0"
  "min (Num 0) (Num 1) = Num 0"
  "min (Num 0) (Infinity) = Num 0"
  "min (Num 1) (NegInfinity) = NegInfinity"
  "min (Num 1) (Num (- 1)) = Num (- 1)"
  "min (Num 1) (Num 0) = Num 0"
  "min (Num 1) (Num 1) = Num 1"
  "min (Num 1) (Infinity) = Num 1"
  "min (Infinity) (NegInfinity) = NegInfinity"
  "min (Infinity) (Num (- 1)) = Num (- 1)"
  "min (Infinity) (Num 0) = Num 0"
  "min (Infinity) (Num 1) = Num 1"
  "min (Infinity) (Infinity) = Infinity"
  by (simp_all add: min_def jsnum_le_simps)

lemma utility_cases:
  "utility board = (case winner board of Some MarkX \<Rightarrow> 1 | Some MarkO \<Rightarrow> - 1 | _ \<Rightarrow> 0)"
  by (simp add: utility_def split: option.splits mark.splits)


lemmas search_eval = maxValue.simps minValue.simps maxLoop.simps(1) minLoop.simps(1)
  maxLoop_Cons minLoop_Cons maxChild_Inr minChild_Inr maxNext_Inr minNext_Inr
  terminal_3x3 winner_3x3 actions_3x3 result_3x3 player_3x3 utility_cases line_def
  jsnum_table_less jsnum_table_le jsnum_table_max jsnum_table_min odd_marks.simps
  if_True if_False simp_thms mark.distinct mark.case option.case option.distinct append.simps

section \<open>Well-formed boards\<close>

lemma length3E:
  assumes "length xs = 3"
  obtains a b c where "xs = [a, b, c]"
proof -
  from assms obtain a ys where 1: "xs = a # ys" and "length ys = 2"
    by (cases xs) auto
  then obtain b zs where 2: "ys = b # zs" and "length zs = 1"
    by (cases ys) auto
  then obtain c where 3: "zs = [c]"
    by (cases zs) auto
  from 1 2 3 that show thesis by simp
qed

lemma wf_boardE:
  assumes "wf_board board"
  obtains a b c d e f g h i where "board = [[a, b, c], [d, e, f], [g, h, i]]"
proof -
  from assms have "length board = 3" by (simp add: wf_board_def)
  then obtain r1 r2 r3 where b: "board = [r1, r2, r3]" by (rule length3E)
  with assms have "length r1 = 3" "length r2 = 3" "length r3 = 3"
    by (simp_all add: wf_board_def)
  then obtain a b c d e f g h i where "r1 = [a, b, c]" "r2 = [d, e, f]" "r3 = [g, h, i]"
    by (metis length3E)
  with b that show thesis by simp
qed

lemma wf_board_3x3: "wf_board [[a, b, c], [d, e, f], [g, h, i]]"
  by (simp add: wf_board_def)

lemma result_wf:
  assumes "wf_board board" and "result board action = Inr resultBoard"
  shows "wf_board resultBoard"
proof -
  obtain x y where a: "action = (x, y)" by (cases action)
  note r = result_InrD [OF assms(2) [unfolded a]]
  from assms(1) r(3) have "length ((board ! nat x)[nat y := player board]) = 3"
    by (simp add: wf_board_def list_all_length)
  with assms(1) r(3) show ?thesis
    unfolding r(6) by (auto simp: wf_board_def list_all_length nth_list_update)
qed

lemma count_marks_result:
  assumes "result board action = Inr resultBoard"
  shows "count_marks resultBoard = Suc (count_marks board)"
  using count_result [OF assms, of "\<lambda>cell. cell \<noteq> EMPTY"] player_not_EMPTY [of board]
  by (simp add: count_marks_def)

lemma player_result:
  assumes "result board action = Inr resultBoard"
  shows "player resultBoard = (if player board = MarkX then MarkO else MarkX)"
  unfolding player_def count_marks_result [OF assms] by (auto simp: mod_Suc)

lemma actions_set:
  "set (actions board) =
     {(int i, int j) | i j. i < length board \<and> j < length (board ! i) \<and> board ! i ! j = EMPTY}"
  by (auto simp: actions_def)

lemma actions_iff:
  "(x, y) \<in> set (actions board) \<longleftrightarrow>
     0 \<le> x \<and> 0 \<le> y \<and> nat x < length board \<and> nat y < length (board ! nat x)
       \<and> board ! nat x ! nat y = EMPTY"
proof
  assume "(x, y) \<in> set (actions board)"
  then show "0 \<le> x \<and> 0 \<le> y \<and> nat x < length board \<and> nat y < length (board ! nat x)
       \<and> board ! nat x ! nat y = EMPTY"
    by (auto simp: actions_set)
next
  assume r: "0 \<le> x \<and> 0 \<le> y \<and> nat x < length board \<and> nat y < length (board ! nat x)
       \<and> board ! nat x ! nat y = EMPTY"
  then have "(x, y) = (int (nat x), int (nat y))" by simp
  with r show "(x, y) \<in> set (actions board)"
    unfolding actions_set by blast
qed

lemma actions_accepted:
  assumes "wf_board board" and "action \<in> set (actions board)"
  shows "\<exists>resultBoard. result board action = Inr resultBoard"
proof -
  obtain x y where a: "action = (x, y)" by (cases action)
  from assms(2) have *: "0 \<le> x" "0 \<le> y" "nat x < length board" "nat y < length (board ! nat x)"
    "board ! nat x ! nat y = EMPTY"
    unfolding a actions_iff by simp_all
  from assms(1) * have "nat x < 3" "nat y < 3"
    by (simp_all add: wf_board_def list_all_length)
  with * have "x \<in> {0, 1, 2}" "y \<in> {0, 1, 2}" by auto
  with * show ?thesis unfolding a by (simp add: acceptableValues_def)
qed

lemma terminal_no_actions: "\<not> terminal board \<Longrightarrow> actions board \<noteq> []"
  by (simp add: terminal_def)

section \<open>The search inside its bounds\<close>

lemma agreesI:
  assumes "r \<le> alpha \<Longrightarrow> v \<le> r" and "alpha < r \<Longrightarrow> r < beta \<Longrightarrow> r = v"
    and "beta \<le> r \<Longrightarrow> r \<le> v"
  shows "agrees alpha beta v r"
  using assms by (simp add: agrees_def)

lemma agrees_low: "agrees alpha beta v r \<Longrightarrow> r \<le> alpha \<Longrightarrow> v \<le> r"
  by (simp add: agrees_def)

lemma agrees_mid: "agrees alpha beta v r \<Longrightarrow> alpha < r \<Longrightarrow> r < beta \<Longrightarrow> r = v"
  by (simp add: agrees_def)

lemma agrees_high: "agrees alpha beta v r \<Longrightarrow> beta \<le> r \<Longrightarrow> r \<le> v"
  by (simp add: agrees_def)

lemma max_break:
  fixes alpha :: "'a::linorder"
  assumes ab: "alpha < beta" and mv: "mv \<le> alpha" and c: "agrees alpha beta v rc"
    and br: "beta \<le> max alpha (max mv rc)"
  shows "agrees alpha beta (max v w) (max mv rc)"
proof -
  from ab mv br have "beta \<le> rc" by (auto simp: max_def split: if_splits)
  with ab mv have m: "max mv rc = rc" by (auto simp: max_def)
  from c \<open>beta \<le> rc\<close> have "rc \<le> v" by (rule agrees_high)
  then have "rc \<le> max v w" by (simp add: le_max_iff_disj)
  with ab \<open>beta \<le> rc\<close> show ?thesis unfolding m by (auto intro!: agreesI)
qed

lemma max_continue:
  fixes alpha :: "'a::linorder"
  assumes ab: "alpha < beta" and mv: "mv \<le> alpha" and c: "agrees alpha beta v rc"
    and nb: "\<not> beta \<le> max alpha (max mv rc)"
    and r: "max mv rc \<le> r" and l: "agrees (max alpha (max mv rc)) beta w r"
  shows "agrees alpha beta (max v w) r"
proof (rule agreesI)
  from r have rc: "rc \<le> r" by simp
  {
    assume 1: "r \<le> alpha"
    with rc have "rc \<le> alpha" by order
    with c have "v \<le> rc" by (rule agrees_low)
    with rc have "v \<le> r" by order
    moreover from 1 have "r \<le> max alpha (max mv rc)" by (simp add: le_max_iff_disj)
    with l have "w \<le> r" by (rule agrees_low)
    ultimately show "max v w \<le> r" by simp
  }
  {
    assume 1: "alpha < r" and 2: "r < beta"
    from rc 2 have rcb: "rc < beta" by order
    have v: "v \<le> r"
    proof (cases "rc \<le> alpha")
      case True
      with c have "v \<le> rc" by (rule agrees_low)
      with rc show ?thesis by order
    next
      case False
      then have "alpha < rc" by simp
      with c have "rc = v" using rcb by (rule agrees_mid)
      with rc show ?thesis by simp
    qed
    show "r = max v w"
    proof (cases "r \<le> max alpha (max mv rc)")
      case True
      with l have w: "w \<le> r" by (rule agrees_low)
      from True 1 mv have "r \<le> rc" by (auto simp: max_def split: if_splits)
      with rc have e: "r = rc" by order
      with 1 have "alpha < rc" by simp
      with c have "rc = v" using rcb by (rule agrees_mid)
      with e w show ?thesis by (simp add: max_def)
    next
      case False
      then have "max alpha (max mv rc) < r" by (simp only: not_le)
      with l have "r = w" using 2 by (rule agrees_mid)
      with v show ?thesis by (simp add: max_def)
    qed
  }
  {
    assume "beta \<le> r"
    with l have "r \<le> w" by (rule agrees_high)
    then show "r \<le> max v w" by (simp add: le_max_iff_disj)
  }
qed

lemma min_break:
  fixes alpha :: "'a::linorder"
  assumes ab: "alpha < beta" and mv: "beta \<le> mv" and c: "agrees alpha beta v rc"
    and br: "min beta (min mv rc) \<le> alpha"
  shows "agrees alpha beta (min v w) (min mv rc)"
proof -
  from ab mv br have "rc \<le> alpha" by (auto simp: min_def split: if_splits)
  with ab mv have m: "min mv rc = rc" by (auto simp: min_def)
  from c \<open>rc \<le> alpha\<close> have "v \<le> rc" by (rule agrees_low)
  then have "min v w \<le> rc" by (simp add: min_le_iff_disj)
  with ab \<open>rc \<le> alpha\<close> show ?thesis unfolding m by (auto intro!: agreesI)
qed

lemma min_continue:
  fixes alpha :: "'a::linorder"
  assumes ab: "alpha < beta" and mv: "beta \<le> mv" and c: "agrees alpha beta v rc"
    and nb: "\<not> min beta (min mv rc) \<le> alpha"
    and r: "r \<le> min mv rc" and l: "agrees alpha (min beta (min mv rc)) w r"
  shows "agrees alpha beta (min v w) r"
proof (rule agreesI)
  from r have rc: "r \<le> rc" by simp
  {
    assume "r \<le> alpha"
    with l have "w \<le> r" by (rule agrees_low)
    then show "min v w \<le> r" by (simp add: min_le_iff_disj)
  }
  {
    assume 1: "alpha < r" and 2: "r < beta"
    from rc 1 have rca: "alpha < rc" by order
    have v: "r \<le> v"
    proof (cases "beta \<le> rc")
      case True
      with c have "rc \<le> v" by (rule agrees_high)
      with rc show ?thesis by order
    next
      case False
      then have "rc < beta" by simp
      with c rca have "rc = v" by (rule agrees_mid)
      with rc show ?thesis by simp
    qed
    show "r = min v w"
    proof (cases "min beta (min mv rc) \<le> r")
      case True
      with l have w: "r \<le> w" by (rule agrees_high)
      from True 2 mv have "rc \<le> r" by (auto simp: min_def split: if_splits)
      with rc have e: "r = rc" by order
      with 2 have "rc < beta" by simp
      with c rca have "rc = v" by (rule agrees_mid)
      with e w show ?thesis by (simp add: min_def)
    next
      case False
      then have "r < min beta (min mv rc)" by (simp only: not_le)
      with l 1 have "r = w" by (rule agrees_mid)
      with v show ?thesis by (simp add: min_def)
    qed
  }
  {
    assume 1: "beta \<le> r"
    with rc have "beta \<le> rc" by order
    with c have "rc \<le> v" by (rule agrees_high)
    with rc have "r \<le> v" by order
    moreover from 1 have "min beta (min mv rc) \<le> r" by (simp add: min_le_iff_disj)
    with l have "r \<le> w" by (rule agrees_high)
    ultimately show "r \<le> min v w" by simp
  }
qed

lemma maxNext_max:
  "maxNext board action rest alpha beta maxVal bestAction (Inr (rc, m)) =
     (if beta \<le> max alpha (max maxVal rc)
      then Inr (max maxVal rc, if maxVal < rc then Action action else bestAction)
      else maxLoop board rest (max alpha (max maxVal rc)) beta (max maxVal rc)
             (if maxVal < rc then Action action else bestAction))"
proof (cases "maxVal < rc")
  case True
  then have "max maxVal rc = rc" by (simp add: max_absorb2)
  with True show ?thesis unfolding maxNext_Inr by (simp only: if_True)
next
  case False
  then have "max maxVal rc = maxVal" by (simp add: max_absorb1)
  with False show ?thesis unfolding maxNext_Inr by (simp only: if_False)
qed

lemma minNext_min:
  "minNext board action rest alpha beta minVal bestAction (Inr (rc, m)) =
     (if min beta (min minVal rc) \<le> alpha
      then Inr (min minVal rc, if rc < minVal then Action action else bestAction)
      else minLoop board rest alpha (min beta (min minVal rc)) (min minVal rc)
             (if rc < minVal then Action action else bestAction))"
proof (cases "rc < minVal")
  case True
  then have "min minVal rc = rc" by (simp add: min_absorb2)
  with True show ?thesis unfolding minNext_Inr by (simp only: if_True)
next
  case False
  then have "min minVal rc = minVal" by (simp add: min_absorb1)
  with False show ?thesis unfolding minNext_Inr by (simp only: if_False)
qed

lemma maxLoop_agrees:
  assumes wf: "wf_board board"
    and sub: "\<And>action child alpha beta.
      action \<in> set (actions board) \<Longrightarrow> result board action = Inr child \<Longrightarrow> alpha < beta
        \<Longrightarrow> \<exists>r m. minValue child alpha beta = Inr (r, m) \<and> agrees alpha beta (Num (gameValue child)) r"
    and "set as \<subseteq> set (actions board)" and "alpha < beta" and "maxVal \<le> alpha"
  shows "\<exists>r m. maxLoop board as alpha beta maxVal best = Inr (r, m) \<and> maxVal \<le> r
           \<and> agrees alpha beta (maxOver board as) r"
  using assms(3-5)
proof (induction as arbitrary: alpha maxVal best)
  case Nil
  then show ?case by (auto simp: agrees_def jsnum_le_simps)
next
  case (Cons action rest)
  from Cons.prems(1) have a: "action \<in> set (actions board)" by simp
  with wf obtain child where ch: "result board action = Inr child"
    using actions_accepted by blast
  from sub [OF a ch Cons.prems(2)] obtain rc m
    where rc: "minValue child alpha beta = Inr (rc, m)"
      and c: "agrees alpha beta (Num (childValue board action)) rc"
    by (auto simp: childValue_def ch)
  let ?mv = "max maxVal rc"
  let ?best = "if maxVal < rc then Action action else best"
  have step: "maxLoop board (action # rest) alpha beta maxVal best =
      (if beta \<le> max alpha ?mv then Inr (?mv, ?best)
       else maxLoop board rest (max alpha ?mv) beta ?mv ?best)"
    by (simp only: maxLoop_Cons ch maxChild_Inr rc maxNext_max)
  show ?case
  proof (cases "beta \<le> max alpha ?mv")
    case True
    from Cons.prems(2,3) c True
    have "agrees alpha beta (max (Num (childValue board action)) (maxOver board rest)) ?mv"
      by (rule max_break)
    with True show ?thesis unfolding step by simp
  next
    case False
    then have lt: "max alpha ?mv < beta" by (simp only: not_le)
    have le: "?mv \<le> max alpha ?mv" by (rule max.cobounded2)
    from Cons.prems(1) have "set rest \<subseteq> set (actions board)" by simp
    from Cons.IH [OF this lt le, of ?best] obtain r m'
      where l: "maxLoop board rest (max alpha ?mv) beta ?mv ?best = Inr (r, m')"
        and r: "?mv \<le> r" and ag: "agrees (max alpha ?mv) beta (maxOver board rest) r"
      by blast
    from Cons.prems(2,3) c False r ag
    have "agrees alpha beta (max (Num (childValue board action)) (maxOver board rest)) r"
      by (rule max_continue)
    moreover from r have "maxVal \<le> r" by simp
    ultimately show ?thesis unfolding step using False l by simp
  qed
qed

lemma minLoop_agrees:
  assumes wf: "wf_board board"
    and sub: "\<And>action child alpha beta.
      action \<in> set (actions board) \<Longrightarrow> result board action = Inr child \<Longrightarrow> alpha < beta
        \<Longrightarrow> \<exists>r m. maxValue child alpha beta = Inr (r, m) \<and> agrees alpha beta (Num (gameValue child)) r"
    and "set as \<subseteq> set (actions board)" and "alpha < beta" and "beta \<le> minVal"
  shows "\<exists>r m. minLoop board as alpha beta minVal best = Inr (r, m) \<and> r \<le> minVal
           \<and> agrees alpha beta (minOver board as) r"
  using assms(3-5)
proof (induction as arbitrary: beta minVal best)
  case Nil
  then show ?case by (auto simp: agrees_def jsnum_le_simps)
next
  case (Cons action rest)
  from Cons.prems(1) have a: "action \<in> set (actions board)" by simp
  with wf obtain child where ch: "result board action = Inr child"
    using actions_accepted by blast
  from sub [OF a ch Cons.prems(2)] obtain rc m
    where rc: "maxValue child alpha beta = Inr (rc, m)"
      and c: "agrees alpha beta (Num (childValue board action)) rc"
    by (auto simp: childValue_def ch)
  let ?mv = "min minVal rc"
  let ?best = "if rc < minVal then Action action else best"
  have step: "minLoop board (action # rest) alpha beta minVal best =
      (if min beta ?mv \<le> alpha then Inr (?mv, ?best)
       else minLoop board rest alpha (min beta ?mv) ?mv ?best)"
    by (simp only: minLoop_Cons ch minChild_Inr rc minNext_min)
  show ?case
  proof (cases "min beta ?mv \<le> alpha")
    case True
    from Cons.prems(2,3) c True
    have "agrees alpha beta (min (Num (childValue board action)) (minOver board rest)) ?mv"
      by (rule min_break)
    with True show ?thesis unfolding step by simp
  next
    case False
    then have lt: "alpha < min beta ?mv" by (simp only: not_le)
    have le: "min beta ?mv \<le> ?mv" by (rule min.cobounded2)
    from Cons.prems(1) have "set rest \<subseteq> set (actions board)" by simp
    from Cons.IH [OF this lt le, of ?best] obtain r m'
      where l: "minLoop board rest alpha (min beta ?mv) ?mv ?best = Inr (r, m')"
        and r: "r \<le> ?mv" and ag: "agrees alpha (min beta ?mv) (minOver board rest) r"
      by blast
    from Cons.prems(2,3) c False r ag
    have "agrees alpha beta (min (Num (childValue board action)) (minOver board rest)) r"
      by (rule min_continue)
    moreover from r have "r \<le> minVal" by simp
    ultimately show ?thesis unfolding step using False l by simp
  qed
qed


lemma agrees_refl: "agrees alpha beta v v"
  by (simp add: agrees_def)

lemma max_Num: "max (Num a) (Num b) = Num (max a b)"
  by (simp add: max_def jsnum_le_simps)

lemma min_Num: "min (Num a) (Num b) = Num (min a b)"
  by (simp add: min_def jsnum_le_simps)

lemma max_NegInfinity: "max x NegInfinity = x"
  by (simp add: max_def jsnum_le_simps antisym)

lemma min_Infinity: "min x Infinity = x"
  by (simp add: min_def jsnum_le_simps antisym)

lemma maxOver_Max:
  "as \<noteq> [] \<Longrightarrow> maxOver board as = Num (Max (set (map (childValue board) as)))"
proof (induction as)
  case Nil
  then show ?case by simp
next
  case (Cons action rest)
  show ?case
  proof (cases "rest = []")
    case True
    then show ?thesis by (simp add: max_NegInfinity)
  next
    case False
    with Cons.IH show ?thesis by (simp add: max_Num)
  qed
qed

lemma minOver_Min:
  "as \<noteq> [] \<Longrightarrow> minOver board as = Num (Min (set (map (childValue board) as)))"
proof (induction as)
  case Nil
  then show ?case by simp
next
  case (Cons action rest)
  show ?case
  proof (cases "rest = []")
    case True
    then show ?thesis by (simp add: min_Infinity)
  next
    case False
    with Cons.IH show ?thesis by (simp add: min_Num)
  qed
qed

lemma results_of_accepted:
  assumes "\<forall>action\<in>set as. \<exists>resultBoard. result board action = Inr resultBoard"
  shows "map gameValue [resultBoard. action \<leftarrow> as, Inr resultBoard \<leftarrow> [result board action]]
           = map (childValue board) as"
  using assms by (induction as) (auto simp: childValue_def)

lemma children_values:
  assumes "wf_board board"
  shows "map gameValue (children board) = map (childValue board) (actions board)"
  unfolding children_def using assms
  by (intro results_of_accepted) (simp add: actions_accepted)

lemma gameValue_X:
  assumes "wf_board board" and "\<not> terminal board" and "player board = MarkX"
  shows "maxOver board (actions board) = Num (gameValue board)"
proof -
  from assms(2) have "actions board \<noteq> []" by (rule terminal_no_actions)
  then have "maxOver board (actions board) = Num (Max (set (map (childValue board) (actions board))))"
    by (rule maxOver_Max)
  also have "\<dots> = Num (gameValue board)"
    using assms by (simp add: gameValue.simps [of board] children_values)
  finally show ?thesis .
qed

lemma gameValue_O:
  assumes "wf_board board" and "\<not> terminal board" and "player board = MarkO"
  shows "minOver board (actions board) = Num (gameValue board)"
proof -
  from assms(2) have "actions board \<noteq> []" by (rule terminal_no_actions)
  then have "minOver board (actions board) = Num (Min (set (map (childValue board) (actions board))))"
    by (rule minOver_Min)
  also have "\<dots> = Num (gameValue board)"
    using assms by (simp add: gameValue.simps [of board] children_values)
  finally show ?thesis .
qed

lemma player_cases: "player board = MarkX \<or> player board = MarkO"
  by (simp add: player_def)

lemma search_agrees:
  "wf_board board \<Longrightarrow> alpha < beta \<Longrightarrow>
     (player board = MarkX \<longrightarrow>
        (\<exists>r m. maxValue board alpha beta = Inr (r, m) \<and> agrees alpha beta (Num (gameValue board)) r))
   \<and> (player board = MarkO \<longrightarrow>
        (\<exists>r m. minValue board alpha beta = Inr (r, m) \<and> agrees alpha beta (Num (gameValue board)) r))"
proof (induction "empties board" arbitrary: board alpha beta rule: less_induct)
  case less
  note wf = less.prems(1) and ab = less.prems(2)
  show ?case
  proof (cases "terminal board")
    case True
    then show ?thesis
      by (simp add: maxValue.simps [of board] minValue.simps [of board] gameValue.simps [of board]
            agrees_refl)
  next
    case False
    have sub: "wf_board child \<and> empties child < empties board
        \<and> player child = (if player board = MarkX then MarkO else MarkX)"
      if "result board action = Inr child" for action child
      using that wf by (simp add: result_wf result_decreases player_result)
    show ?thesis
    proof (intro conjI impI)
      assume p: "player board = MarkX"
      have "\<exists>r m. maxLoop board (actions board) alpha beta NegInfinity Undefined = Inr (r, m)
          \<and> NegInfinity \<le> r \<and> agrees alpha beta (maxOver board (actions board)) r"
      proof (rule maxLoop_agrees [OF wf _ subset_refl ab])
        fix action child a b
        assume "action \<in> set (actions board)" and r: "result board action = Inr child"
          and "a < (b :: jsnum)"
        with less.hyps [of child a b] sub [OF r] p
        show "\<exists>r m. minValue child a b = Inr (r, m) \<and> agrees a b (Num (gameValue child)) r"
          by simp
      next
        show "NegInfinity \<le> alpha" by (simp add: jsnum_le_simps)
      qed
      then obtain r m where "maxLoop board (actions board) alpha beta NegInfinity Undefined = Inr (r, m)"
        and "agrees alpha beta (maxOver board (actions board)) r"
        by blast
      then show "\<exists>r m. maxValue board alpha beta = Inr (r, m)
          \<and> agrees alpha beta (Num (gameValue board)) r"
        using False by (simp add: maxValue.simps [of board] gameValue_X [OF wf False p])
    next
      assume p: "player board = MarkO"
      have "\<exists>r m. minLoop board (actions board) alpha beta Infinity Undefined = Inr (r, m)
          \<and> r \<le> Infinity \<and> agrees alpha beta (minOver board (actions board)) r"
      proof (rule minLoop_agrees [OF wf _ subset_refl ab])
        fix action child a b
        assume "action \<in> set (actions board)" and r: "result board action = Inr child"
          and "a < (b :: jsnum)"
        with less.hyps [of child a b] sub [OF r] p
        show "\<exists>r m. maxValue child a b = Inr (r, m) \<and> agrees a b (Num (gameValue child)) r"
          by simp
      next
        show "beta \<le> Infinity" by (simp add: jsnum_le_simps)
      qed
      then obtain r m where "minLoop board (actions board) alpha beta Infinity Undefined = Inr (r, m)"
        and "agrees alpha beta (minOver board (actions board)) r"
        by blast
      then show "\<exists>r m. minValue board alpha beta = Inr (r, m)
          \<and> agrees alpha beta (Num (gameValue board)) r"
        using False by (simp add: minValue.simps [of board] gameValue_O [OF wf False p])
    qed
  qed
qed

section \<open>The action chosen at the root\<close>

lemma pick_simps [simp]: "pick None = Undefined" "pick (Some action) = Action action"
  by (simp_all add: pick_def)

lemma not_Infinity_le_Num: "\<not> Infinity \<le> Num v"
  by (simp add: jsnum_le_simps)

lemma maxLoop_root:
  assumes wf: "wf_board board"
    and sub: "\<And>action child alpha beta.
      action \<in> set (actions board) \<Longrightarrow> result board action = Inr child \<Longrightarrow> alpha < beta
        \<Longrightarrow> \<exists>r m. minValue child alpha beta = Inr (r, m) \<and> agrees alpha beta (Num (gameValue child)) r"
    and "set as \<subseteq> set (actions board)" and "maxVal < Infinity"
  shows "maxLoop board as maxVal Infinity maxVal best =
           Inr (max maxVal (maxOver board as),
                if maxVal < maxOver board as
                then pick (find (\<lambda>action. Num (childValue board action) = maxOver board as) as)
                else best)"
  using assms(3,4)
proof (induction as arbitrary: maxVal best)
  case Nil
  then show ?case by (simp add: max_NegInfinity jsnum_less_simps)
next
  case (Cons action rest)
  from Cons.prems(1) have a: "action \<in> set (actions board)" by simp
  with wf obtain child where ch: "result board action = Inr child"
    using actions_accepted by blast
  let ?v = "Num (childValue board action)"
  let ?w = "maxOver board rest"
  from sub [OF a ch Cons.prems(2)] obtain rc m
    where rc: "minValue child maxVal Infinity = Inr (rc, m)"
      and c: "agrees maxVal Infinity ?v rc"
    by (auto simp: childValue_def ch)
  have fin: "rc < Infinity"
  proof (rule ccontr)
    assume "\<not> rc < Infinity"
    then have "Infinity \<le> rc" by simp
    with c have "rc \<le> ?v" by (rule agrees_high)
    with \<open>Infinity \<le> rc\<close> have "Infinity \<le> ?v" by order
    then show False by (simp add: jsnum_le_simps)
  qed
  let ?mv = "max maxVal rc"
  let ?best = "if maxVal < rc then Action action else best"
  from fin Cons.prems(2) have mv: "?mv < Infinity" by simp
  have "max maxVal ?mv = ?mv" by simp
  with mv have step: "maxLoop board (action # rest) maxVal Infinity maxVal best =
      maxLoop board rest ?mv Infinity ?mv ?best"
    by (simp only: maxLoop_Cons ch maxChild_Inr rc maxNext_max not_le [symmetric] if_False)
  from Cons.prems(1) have "set rest \<subseteq> set (actions board)" by simp
  note IH = Cons.IH [OF this mv, of ?best]
  show ?case
  proof (cases "maxVal < rc")
    case gt: True
    with c have e: "rc = ?v" using fin by (rule agrees_mid)
    with gt have lt: "maxVal < ?v" by simp
    then have m: "?mv = ?v" unfolding e by (simp add: max_absorb2)
    have 1: "max maxVal (max ?v ?w) = max ?v ?w"
      using lt by (simp add: max_absorb2 less_max_iff_disj less_imp_le)
    have 2: "maxVal < max ?v ?w"
      using lt by (simp add: less_max_iff_disj)
    show ?thesis
    proof (cases "?v < ?w")
      case w: True
      then have "max ?v ?w = ?w" "?v \<noteq> ?w" by (simp_all add: max_absorb2)
      with w 1 2 lt gt show ?thesis
        unfolding step IH unfolding m by simp
    next
      case w: False
      then have "max ?v ?w = ?v" by (simp add: max_absorb1)
      with w 1 2 lt gt show ?thesis
        unfolding step IH unfolding m by simp
    qed
  next
    case False
    then have le: "rc \<le> maxVal" by simp
    with c have "?v \<le> rc" by (rule agrees_low)
    with le have v: "?v \<le> maxVal" by order
    from le have m: "?mv = maxVal" by (simp add: max_absorb1)
    have 1: "max maxVal (max ?v ?w) = max maxVal ?w"
      using v by (simp add: max.assoc [symmetric] max_absorb1)
    show ?thesis
    proof (cases "maxVal < ?w")
      case w: True
      with v have "?v < ?w" by order
      then have "max ?v ?w = ?w" "?v \<noteq> ?w" by (simp_all add: max_absorb2)
      with w 1 False show ?thesis
        unfolding step IH unfolding m by simp
    next
      case w: False
      with v have "\<not> maxVal < max ?v ?w" by (simp add: less_max_iff_disj)
      with w 1 False show ?thesis
        unfolding step IH unfolding m by simp
    qed
  qed
qed


lemma minLoop_root:
  assumes wf: "wf_board board"
    and sub: "\<And>action child alpha beta.
      action \<in> set (actions board) \<Longrightarrow> result board action = Inr child \<Longrightarrow> alpha < beta
        \<Longrightarrow> \<exists>r m. maxValue child alpha beta = Inr (r, m) \<and> agrees alpha beta (Num (gameValue child)) r"
    and "set as \<subseteq> set (actions board)" and "NegInfinity < minVal"
  shows "minLoop board as NegInfinity minVal minVal best =
           Inr (min minVal (minOver board as),
                if minOver board as < minVal
                then pick (find (\<lambda>action. Num (childValue board action) = minOver board as) as)
                else best)"
  using assms(3,4)
proof (induction as arbitrary: minVal best)
  case Nil
  then show ?case by (simp add: min_Infinity jsnum_less_simps)
next
  case (Cons action rest)
  from Cons.prems(1) have a: "action \<in> set (actions board)" by simp
  with wf obtain child where ch: "result board action = Inr child"
    using actions_accepted by blast
  let ?v = "Num (childValue board action)"
  let ?w = "minOver board rest"
  from sub [OF a ch Cons.prems(2)] obtain rc m
    where rc: "maxValue child NegInfinity minVal = Inr (rc, m)"
      and c: "agrees NegInfinity minVal ?v rc"
    by (auto simp: childValue_def ch)
  have fin: "NegInfinity < rc"
  proof (rule ccontr)
    assume "\<not> NegInfinity < rc"
    then have "rc \<le> NegInfinity" by simp
    with c have "?v \<le> rc" by (rule agrees_low)
    with \<open>rc \<le> NegInfinity\<close> have "?v \<le> NegInfinity" by order
    then show False by (simp add: jsnum_le_simps)
  qed
  let ?mv = "min minVal rc"
  let ?best = "if rc < minVal then Action action else best"
  from fin Cons.prems(2) have mv: "NegInfinity < ?mv" by simp
  have "min minVal ?mv = ?mv" by simp
  with mv have step: "minLoop board (action # rest) NegInfinity minVal minVal best =
      minLoop board rest NegInfinity ?mv ?mv ?best"
    by (simp only: minLoop_Cons ch minChild_Inr rc minNext_min not_le [symmetric] if_False)
  from Cons.prems(1) have "set rest \<subseteq> set (actions board)" by simp
  note IH = Cons.IH [OF this mv, of ?best]
  show ?case
  proof (cases "rc < minVal")
    case gt: True
    with c fin have e: "rc = ?v" by (rule agrees_mid)
    with gt have lt: "?v < minVal" by simp
    then have m: "?mv = ?v" unfolding e by (simp add: min_absorb2)
    have 1: "min minVal (min ?v ?w) = min ?v ?w"
      using lt by (simp add: min_absorb2 min_less_iff_disj less_imp_le)
    have 2: "min ?v ?w < minVal"
      using lt by (simp add: min_less_iff_disj)
    show ?thesis
    proof (cases "?w < ?v")
      case w: True
      then have "min ?v ?w = ?w" "?v \<noteq> ?w" by (simp_all add: min_absorb2)
      with w 1 2 lt gt show ?thesis
        unfolding step IH unfolding m by simp
    next
      case w: False
      then have "min ?v ?w = ?v" by (simp add: min_absorb1)
      with w 1 2 lt gt show ?thesis
        unfolding step IH unfolding m by simp
    qed
  next
    case False
    then have le: "minVal \<le> rc" by simp
    with c have "rc \<le> ?v" by (rule agrees_high)
    with le have v: "minVal \<le> ?v" by order
    from le have m: "?mv = minVal" by (simp add: min_absorb1)
    have 1: "min minVal (min ?v ?w) = min minVal ?w"
      using v by (simp add: min.assoc [symmetric] min_absorb1)
    show ?thesis
    proof (cases "?w < minVal")
      case w: True
      with v have "?w < ?v" by order
      then have "min ?v ?w = ?w" "?v \<noteq> ?w" by (simp_all add: min_absorb2)
      with w 1 False show ?thesis
        unfolding step IH unfolding m by simp
    next
      case w: False
      with v have "\<not> min ?v ?w < minVal" by (simp add: min_less_iff_disj)
      with w 1 False show ?thesis
        unfolding step IH unfolding m by simp
    qed
  qed
qed

lemma sub_min:
  assumes "wf_board board" and "player board = MarkX"
    and "result board action = Inr child" and "alpha < beta"
  shows "\<exists>r m. minValue child alpha beta = Inr (r, m) \<and> agrees alpha beta (Num (gameValue child)) r"
  using search_agrees [of child alpha beta] assms
  by (simp add: result_wf player_result)

lemma sub_max:
  assumes "wf_board board" and "player board = MarkO"
    and "result board action = Inr child" and "alpha < beta"
  shows "\<exists>r m. maxValue child alpha beta = Inr (r, m) \<and> agrees alpha beta (Num (gameValue child)) r"
  using search_agrees [of child alpha beta] assms
  by (simp add: result_wf player_result)

lemma maxValue_root:
  assumes wf: "wf_board board" and nt: "\<not> terminal board" and p: "player board = MarkX"
  shows "maxValue board NegInfinity Infinity = Inr (Num (gameValue board), pick (first_best board))"
proof -
  have "maxLoop board (actions board) NegInfinity Infinity NegInfinity Undefined =
      Inr (max NegInfinity (maxOver board (actions board)),
           if NegInfinity < maxOver board (actions board)
           then pick (find (\<lambda>action. Num (childValue board action) = maxOver board (actions board))
                  (actions board))
           else Undefined)"
    by (rule maxLoop_root [OF wf sub_min [OF wf p] subset_refl]) (simp_all add: jsnum_less_simps)
  then show ?thesis
    using nt unfolding gameValue_X [OF wf nt p] first_best_def
    by (simp add: maxValue.simps [of board] max_def jsnum_le_simps jsnum_less_simps)
qed

lemma minValue_root:
  assumes wf: "wf_board board" and nt: "\<not> terminal board" and p: "player board = MarkO"
  shows "minValue board NegInfinity Infinity = Inr (Num (gameValue board), pick (first_best board))"
proof -
  have "minLoop board (actions board) NegInfinity Infinity Infinity Undefined =
      Inr (min Infinity (minOver board (actions board)),
           if minOver board (actions board) < Infinity
           then pick (find (\<lambda>action. Num (childValue board action) = minOver board (actions board))
                  (actions board))
           else Undefined)"
    by (rule minLoop_root [OF wf sub_max [OF wf p] subset_refl]) (simp_all add: jsnum_less_simps)
  then show ?thesis
    using nt unfolding gameValue_O [OF wf nt p] first_best_def
    by (simp add: minValue.simps [of board] min_def jsnum_le_simps jsnum_less_simps)
qed

lemma minimax_first_best:
  assumes "wf_board board" and "\<not> terminal board"
  shows "minimax board = Inr (pick (first_best board))"
proof (cases "player board = MarkX")
  case True
  with assms show ?thesis by (simp add: minimax_def maxValue_root)
next
  case False
  with player_cases [of board] have "player board = MarkO" by simp
  with assms show ?thesis by (simp add: minimax_def minValue_root)
qed

lemma gameValue_attained:
  assumes wf: "wf_board board" and nt: "\<not> terminal board"
  shows "gameValue board \<in> childValue board ` set (actions board)"
proof -
  from nt have ne: "actions board \<noteq> []" by (rule terminal_no_actions)
  let ?S = "set (map (childValue board) (actions board))"
  from ne have "Max ?S \<in> ?S" "Min ?S \<in> ?S" by (simp_all del: set_map)
  with wf nt show ?thesis
    by (simp add: gameValue.simps [of board] children_values)
qed

lemma first_best_Some:
  assumes "wf_board board" and "\<not> terminal board"
  shows "\<exists>action. first_best board = Some action"
proof -
  from gameValue_attained [OF assms] obtain action where "action \<in> set (actions board)"
    and "childValue board action = gameValue board" by auto
  then have "first_best board \<noteq> None"
    unfolding first_best_def find_None_iff by blast
  then show ?thesis by auto
qed

lemma gameValue_bounds:
  assumes wf: "wf_board board" and nt: "\<not> terminal board" and a: "action \<in> set (actions board)"
  shows "player board = MarkX \<Longrightarrow> childValue board action \<le> gameValue board"
    and "player board = MarkO \<Longrightarrow> gameValue board \<le> childValue board action"
  using assms by (simp_all add: gameValue.simps [of board] children_values player_def)

lemma optimal_iff:
  assumes wf: "wf_board board" and nt: "\<not> terminal board" and a: "action \<in> set (actions board)"
  shows "optimal board action \<longleftrightarrow> childValue board action = gameValue board"
proof -
  from wf a obtain child where ch: "result board action = Inr child"
    using actions_accepted by blast
  then have cv: "childValue board action = gameValue child" by (simp add: childValue_def)
  have vals: "gameValue ` set (children board) = childValue board ` set (actions board)"
    using children_values [OF wf] by (metis set_map)
  have "optimal board action \<longleftrightarrow>
      (\<forall>v \<in> gameValue ` set (children board).
         if player board = MarkX then v \<le> gameValue child else gameValue child \<le> v)"
    by (simp add: optimal_def ch list_all_iff)
  also have "\<dots> \<longleftrightarrow> (\<forall>other \<in> set (actions board).
         if player board = MarkX then childValue board other \<le> childValue board action
         else childValue board action \<le> childValue board other)"
    unfolding vals cv by simp
  also have "\<dots> \<longleftrightarrow> childValue board action = gameValue board"
  proof
    assume all: "\<forall>other \<in> set (actions board).
         if player board = MarkX then childValue board other \<le> childValue board action
         else childValue board action \<le> childValue board other"
    from gameValue_attained [OF wf nt] obtain best where b: "best \<in> set (actions board)"
      and g: "gameValue board = childValue board best" by auto
    from all b g gameValue_bounds [OF wf nt a] player_cases [of board]
    show "childValue board action = gameValue board"
      by (auto split: if_splits)
  next
    assume "childValue board action = gameValue board"
    with gameValue_bounds [OF wf nt] player_cases [of board]
    show "\<forall>other \<in> set (actions board).
         if player board = MarkX then childValue board other \<le> childValue board action
         else childValue board action \<le> childValue board other"
      by auto
  qed
  finally show ?thesis .
qed

lemma first_best_optimal:
  assumes wf: "wf_board board" and nt: "\<not> terminal board"
  shows "first_best board = find (optimal board) (actions board)"
  unfolding first_best_def
  by (rule find_cong [OF refl]) (simp add: optimal_iff [OF wf nt])

section \<open>Reachable boards\<close>

lemma wf_initialState: "wf_board initialState"
  by (simp add: initialState_def wf_board_def)

lemma reachable_wf: "reachable board \<Longrightarrow> wf_board board"
  by (induction rule: reachable.induct) (simp_all add: wf_initialState result_wf)

lemma legal_play_reachable: "legal_play board \<Longrightarrow> reachable board"
  by (induction rule: legal_play.induct) (auto intro: reachable.intros)

lemma not_terminal_initialState: "\<not> terminal initialState"
  unfolding initialState_def terminal_3x3 winner_3x3 line_def by simp

lemma minimax_chooses:
  assumes wf: "wf_board board" and nt: "\<not> terminal board"
  shows "\<exists>action. minimax board = Inr (Action action) \<and> find (optimal board) (actions board) = Some action"
proof -
  from first_best_Some [OF assms] obtain action where f: "first_best board = Some action" ..
  then have "minimax board = Inr (Action action)"
    by (simp add: minimax_first_best [OF assms])
  moreover from f have "find (optimal board) (actions board) = Some action"
    by (simp only: first_best_optimal [OF assms])
  ultimately show ?thesis by blast
qed

lemma result_only_InvalidAction:
  assumes "wf_board board" and "result board action = Inl e"
  shows "e = InvalidAction"
proof -
  obtain x y where a: "action = (x, y)" by (cases action)
  from assms show ?thesis
    unfolding a by (auto simp: wf_board_def acceptableValues_def split: if_splits)
qed

lemma result_fails_iff_wf:
  assumes "wf_board board"
  shows "result board (x, y) = Inl InvalidAction \<longleftrightarrow>
           x \<notin> {0, 1, 2} \<or> y \<notin> {0, 1, 2} \<or> board ! nat x ! nat y \<noteq> EMPTY"
proof (cases "x \<in> {0, 1, 2} \<and> y \<in> {0, 1, 2}")
  case True
  with assms have "nat x < length board" "length (board ! nat x) = 3"
    by (auto simp: wf_board_def list_all_length)
  with True show ?thesis by (auto simp: acceptableValues_def)
next
  case False
  then show ?thesis by (auto simp: acceptableValues_def)
qed

lemma minimax_total:
  assumes "wf_board board"
  shows "\<exists>r. minimax board = Inr r"
proof (cases "terminal board")
  case True
  then show ?thesis by (simp add: minimax_def)
next
  case False
  with assms show ?thesis by (simp add: minimax_first_best)
qed

lemma legal_play_wf: "legal_play board \<Longrightarrow> wf_board board"
  by (simp add: legal_play_reachable reachable_wf)

section \<open>The store after \<open>result\<close>\<close>

lemma those_map_Some: "those (map (\<lambda>x. Some (f x)) xs) = Some (map f xs)"
  by (induction xs) simp_all

lemma those_SomeD:
  "those xs = Some ys \<Longrightarrow> x \<in> set xs \<Longrightarrow> x \<noteq> None"
  by (induction xs arbitrary: ys) (auto split: option.splits)

lemma row_at_extend:
  assumes "row_at s ref \<noteq> None" and "take (length s) s' = s"
  shows "row_at s' ref = row_at s ref"
proof -
  from assms(1) have l: "ref < length s" by (auto simp: row_at_def split: if_splits)
  from assms(2) have "length s \<le> length s'" by (metis length_take min.cobounded1 min.commute)
  moreover from l assms(2) have "s' ! ref = s ! ref" by (metis nth_take)
  ultimately show ?thesis using l by (simp add: row_at_def)
qed

lemma board_at_extend:
  assumes "board_at s ref = Some board" and "take (length s) s' = s"
  shows "board_at s' ref = Some board"
proof -
  from assms(1) obtain refs where l: "ref < length s" and o: "s ! ref = Rows refs"
    and t: "those (map (row_at s) refs) = Some board"
    by (auto simp: board_at_def split: if_splits obj.splits)
  from assms(2) have "length s \<le> length s'" by (metis length_take min.cobounded1 min.commute)
  with l have l': "ref < length s'" by simp
  from l assms(2) have "s' ! ref = s ! ref" by (metis nth_take)
  with o have o': "s' ! ref = Rows refs" by simp
  have "map (row_at s') refs = map (row_at s) refs"
  proof (rule map_cong [OF refl])
    fix q assume "q \<in> set refs"
    then have "row_at s q \<in> set (map (row_at s) refs)" by simp
    with t have "row_at s q \<noteq> None" by (rule those_SomeD)
    then show "row_at s' q = row_at s q" using assms(2) by (rule row_at_extend)
  qed
  with t have "those (map (row_at s') refs) = Some board" by (simp only:)
  with l' o' show ?thesis by (simp add: board_at_def)
qed

lemma board_at_rows:
  assumes "n < length s" and "s ! n = Rows (map (\<lambda>k. Suc (n + k)) [0..<length board])"
    and "\<And>k. k < length board \<Longrightarrow> row_at s (Suc (n + k)) = Some (board ! k)"
  shows "board_at s n = Some board"
proof -
  have "map (row_at s) (map (\<lambda>k. Suc (n + k)) [0..<length board])
      = map (\<lambda>k. Some (board ! k)) [0..<length board]"
    unfolding map_map by (rule map_cong [OF refl]) (simp add: assms(3))
  then have "those (map (row_at s) (map (\<lambda>k. Suc (n + k)) [0..<length board]))
      = Some (map (\<lambda>k. board ! k) [0..<length board])"
    by (simp only: those_map_Some)
  then have "those (map (row_at s) (map (\<lambda>k. Suc (n + k)) [0..<length board])) = Some board"
    by (simp only: map_nth)
  with assms(1,2) show ?thesis by (simp add: board_at_def del: map_map)
qed

lemma board_at_clone:
  "board_at (s @ Rows (map (\<lambda>k. Suc (length s + k)) [0..<length board]) # map Cells board) (length s)
     = Some board"
  by (rule board_at_rows) (simp_all add: row_at_def nth_append)

lemma board_at_clone_update:
  assumes "x < length board"
  shows "board_at ((s @ Rows (map (\<lambda>k. Suc (length s + k)) [0..<length board]) # map Cells board)
            [Suc (length s + x) := Cells row]) (length s) = Some (board[x := row])"
proof (rule board_at_rows)
  fix k assume "k < length (board[x := row])"
  with assms show "row_at ((s @ Rows (map (\<lambda>k. Suc (length s + k)) [0..<length board]) # map Cells board)
            [Suc (length s + x) := Cells row]) (Suc (length s + k)) = Some (board[x := row] ! k)"
    by (simp add: row_at_def nth_list_update nth_append)
qed (simp_all add: nth_append)

lemma result_store_fails:
  assumes "board_at s ref = Some board" and "result board action = Inl e"
  shows "result_store s ref action = (s, Inl e)"
proof -
  obtain x y where a: "action = (x, y)" by (cases action)
  from assms show ?thesis
    unfolding a result_store_def by (auto split: if_splits)
qed

lemma result_store_succeeds:
  assumes b: "board_at s ref = Some board" and r: "result board action = Inr resultBoard"
  shows "\<exists>s'. result_store s ref action = (s', Inr (length s))
           \<and> board_at s' (length s) = Some resultBoard
           \<and> take (length s) s' = s \<and> board_at s' ref = Some board"
proof -
  obtain x y where a: "action = (x, y)" by (cases action)
  note d = result_InrD [OF r [unfolded a]]
  let ?s1 = "s @ Rows (map (\<lambda>k. Suc (length s + k)) [0..<length board]) # map Cells board"
  let ?ref = "Suc (length s + nat x)"
  have 1: "board_at ?s1 (length s) = Some board"
    by (rule board_at_clone)
  have 2: "row_at ?s1 ?ref = Some (board ! nat x)"
    using d(3) by (simp add: row_at_def nth_append)
  let ?s2 = "?s1[?ref := Cells ((board ! nat x)[nat y := player board])]"
  have "result_store s ref action = (?s2, Inr (length s))"
    using d(1-5) unfolding a result_store_def b
    by (simp add: 1 2 Let_def acceptableValues_def)
  moreover have "board_at ?s2 (length s) = Some resultBoard"
    unfolding d(6) by (rule board_at_clone_update [OF d(3)])
  moreover have t: "take (length s) ?s2 = s" by simp
  moreover from b t have "board_at ?s2 ref = Some board" by (rule board_at_extend)
  ultimately show ?thesis by blast
qed

section \<open>Lines and the winner\<close>

lemma scan_find:
  assumes "\<forall>condition \<in> set conditions. condition \<noteq> []"
  shows "winner_scan board conditions =
           map_option (\<lambda>condition. (condition, cell board (hd condition)))
             (find (complete board) conditions)"
  using assms
proof (induction conditions)
  case Nil
  show ?case by simp
next
  case (Cons condition rest)
  then have ne: "condition \<noteq> []" by simp
  let ?cells = "map (\<lambda>(i, j). board ! i ! j) condition"
  have c: "?cells = map (cell board) condition"
    by (simp add: cell_def case_prod_beta)
  from ne have z: "?cells ! 0 = cell board (hd condition)"
    unfolding c by (simp add: hd_conv_nth)
  have "list_all (\<lambda>cell. cell \<noteq> EMPTY \<and> cell = ?cells ! 0) ?cells = complete board condition"
    unfolding z unfolding c by (simp add: complete_def list_all_iff)
  with Cons z show ?case by (simp add: Let_def)
qed

lemma conditions_nonempty: "\<forall>condition \<in> set winningConditions. condition \<noteq> []"
  by (simp add: winningConditions_def)

lemma winner_find:
  "winner board = map_option (\<lambda>condition. cell board (hd condition))
                    (find (complete board) winningConditions)"
  unfolding winner_def scan_find [OF conditions_nonempty]
  by (simp add: option.map_comp comp_def)

lemma highlighted_find:
  "highlighted board = (case find (complete board) winningConditions of None \<Rightarrow> [] | Some c \<Rightarrow> c)"
  unfolding highlighted_def scan_find [OF conditions_nonempty]
  by (simp split: option.splits)

lemma find_SomeD: "find P xs = Some x \<Longrightarrow> x \<in> set xs \<and> P x"
  by (induction xs) (auto split: if_splits)

lemma condition_hd: "condition \<in> set winningConditions \<Longrightarrow> hd condition \<in> set condition"
  using conditions_nonempty by (blast intro: hd_in_set)

lemma complete_iff:
  assumes "condition \<in> set winningConditions"
  shows "complete board condition \<longleftrightarrow>
           (\<exists>m. m \<noteq> EMPTY \<and> list_all (\<lambda>p. cell board p = m) condition)"
proof
  assume "complete board condition"
  then have "\<forall>p \<in> set condition. cell board p \<noteq> EMPTY \<and> cell board p = cell board (hd condition)"
    unfolding complete_def list_all_iff .
  with condition_hd [OF assms]
  have "cell board (hd condition) \<noteq> EMPTY
      \<and> list_all (\<lambda>p. cell board p = cell board (hd condition)) condition"
    unfolding list_all_iff by blast
  then show "\<exists>m. m \<noteq> EMPTY \<and> list_all (\<lambda>p. cell board p = m) condition" by blast
next
  assume "\<exists>m. m \<noteq> EMPTY \<and> list_all (\<lambda>p. cell board p = m) condition"
  then obtain m where m: "m \<noteq> EMPTY" and a: "\<forall>p \<in> set condition. cell board p = m"
    unfolding list_all_iff by blast
  from a condition_hd [OF assms] have "cell board (hd condition) = m" by blast
  with m a show "complete board condition"
    unfolding complete_def list_all_iff by metis
qed

lemma winner_None_iff:
  "winner board = None \<longleftrightarrow> (\<forall>m. m \<noteq> EMPTY \<longrightarrow> \<not> has_line m board)"
proof -
  have "winner board = None \<longleftrightarrow> \<not> (\<exists>condition \<in> set winningConditions. complete board condition)"
    unfolding winner_find by (simp only: option.map_disc_iff find_None_iff) blast
  also have "\<dots> \<longleftrightarrow> (\<forall>m. m \<noteq> EMPTY \<longrightarrow> \<not> has_line m board)"
    unfolding has_line_def list_ex_iff using complete_iff by blast
  finally show ?thesis .
qed

lemma winner_SomeD:
  assumes "winner board = Some m"
  shows "m \<noteq> EMPTY \<and> has_line m board"
proof -
  from assms obtain condition where f: "find (complete board) winningConditions = Some condition"
    and m: "m = cell board (hd condition)"
    unfolding winner_find by blast
  from f have c: "condition \<in> set winningConditions" and "complete board condition"
    by (auto dest: find_SomeD)
  then have "\<forall>p \<in> set condition. cell board p \<noteq> EMPTY \<and> cell board p = m"
    unfolding complete_def list_all_iff m by blast
  with c condition_hd [OF c] show ?thesis
    unfolding has_line_def list_ex_iff list_all_iff by blast
qed

lemma conditions_in_range:
  assumes "condition \<in> set winningConditions" and "p \<in> set condition"
  shows "fst p < 3 \<and> snd p < 3"
  using assms by (auto simp: winningConditions_def)

lemma cell_result:
  assumes wf: "wf_board board" and r: "result board (x, y) = Inr resultBoard"
    and p: "fst p < 3" "snd p < 3"
  shows "cell resultBoard p = (if p = (nat x, nat y) then player board else cell board p)"
proof -
  note d = result_InrD [OF r]
  from wf have "length board = 3" by (simp add: wf_board_def)
  with p d(3,4) show ?thesis
    unfolding d(6) cell_def by (cases p) (auto simp: nth_list_update)
qed

lemma new_line_is_players:
  assumes wf: "wf_board board" and nt: "\<not> terminal board"
    and r: "result board action = Inr resultBoard"
    and m: "m \<noteq> EMPTY" and l: "has_line m resultBoard"
  shows "m = player board"
proof (rule ccontr)
  assume ne: "m \<noteq> player board"
  obtain x y where a: "action = (x, y)" by (cases action)
  from l obtain condition where c: "condition \<in> set winningConditions"
    and all: "\<forall>p \<in> set condition. cell resultBoard p = m"
    unfolding has_line_def list_ex_iff list_all_iff by blast
  have "cell board p = m" if "p \<in> set condition" for p
  proof -
    from conditions_in_range [OF c that] have "fst p < 3" "snd p < 3" by simp_all
    from cell_result [OF wf r [unfolded a] this] all that ne
    show ?thesis by (auto split: if_splits)
  qed
  with c have "has_line m board"
    unfolding has_line_def list_ex_iff list_all_iff by blast
  moreover from nt have "winner board = None" by (simp add: terminal_def)
  ultimately show False using m by (simp add: winner_None_iff)
qed

lemma no_line_initialState:
  assumes "m \<noteq> EMPTY"
  shows "\<not> has_line m initialState"
proof -
  have "winner initialState = None"
    unfolding initialState_def winner_3x3 line_def by simp
  with assms show ?thesis by (simp add: winner_None_iff)
qed

lemma one_winner:
  assumes "legal_play board"
  shows "\<not> (has_line MarkX board \<and> has_line MarkO board)"
  using assms
proof (cases rule: legal_play.cases)
  case legal_initial
  then show ?thesis by (simp add: no_line_initialState)
next
  case (legal_result before action)
  from legal_result(1) have wf: "wf_board before" by (rule legal_play_wf)
  show ?thesis
  proof
    assume "has_line MarkX board \<and> has_line MarkO board"
    with new_line_is_players [OF wf legal_result(2,3), of MarkX]
      new_line_is_players [OF wf legal_result(2,3), of MarkO]
    show False by simp
  qed
qed

lemma mark_cases: "m = EMPTY \<or> m = MarkX \<or> m = MarkO"
  by (cases m) simp_all

lemma utility_one: "utility board = 1 \<longleftrightarrow> winner board = Some MarkX"
  by (simp add: utility_def Let_def)

lemma utility_minus_one: "utility board = - 1 \<longleftrightarrow> winner board = Some MarkO"
  by (simp add: utility_def Let_def)

lemma utility_zero: "utility board = 0 \<longleftrightarrow> winner board = None"
proof (cases "winner board")
  case None
  then show ?thesis by (simp add: utility_def Let_def)
next
  case (Some m)
  with winner_SomeD [OF Some] mark_cases [of m] show ?thesis
    by (auto simp: utility_def Let_def)
qed

lemma in_concat_iff:
  "x \<in> set (concat board) \<longleftrightarrow> (\<exists>i < length board. \<exists>j < length (board ! i). board ! i ! j = x)"
proof
  assume "x \<in> set (concat board)"
  then obtain row where "row \<in> set board" and "x \<in> set row" by auto
  then show "\<exists>i < length board. \<exists>j < length (board ! i). board ! i ! j = x"
    by (metis in_set_conv_nth)
next
  assume "\<exists>i < length board. \<exists>j < length (board ! i). board ! i ! j = x"
  then obtain i j where "i < length board" "j < length (board ! i)" "board ! i ! j = x" by blast
  then have "board ! i \<in> set board" "x \<in> set (board ! i)" by auto
  then show "x \<in> set (concat board)" by auto
qed

lemma actions_empty_iff: "actions board = [] \<longleftrightarrow> empties board = 0"
proof -
  have "actions board = [] \<longleftrightarrow> set (actions board) = {}" by simp
  also have "\<dots> \<longleftrightarrow> \<not> (\<exists>i < length board. \<exists>j < length (board ! i). board ! i ! j = EMPTY)"
    unfolding actions_set by blast
  also have "\<dots> \<longleftrightarrow> EMPTY \<notin> set (concat board)"
    by (simp only: in_concat_iff)
  also have "\<dots> \<longleftrightarrow> empties board = 0"
    by (auto simp: empties_def count_of_def filter_empty_conv)
  finally show ?thesis .
qed

section \<open>The game that \<open>minimax\<close> plays against itself\<close>

lemmas minimax_eval = minimax_def search_eval sum.case snd_conv

lemma selfPlay_step:
  assumes "\<not> terminal board" and "minimax board = Inr (Action action)"
    and "result board action = Inr child"
  shows "selfPlay board = selfPlay child"
  by (simp add: selfPlay.simps [of board] assms)

lemma selfPlay_terminal: "terminal board \<Longrightarrow> selfPlay board = Inr board"
  by (simp add: selfPlay.simps [of board])

lemma maxValue_initialState:
  "maxValue [[EMPTY, EMPTY, EMPTY], [EMPTY, EMPTY, EMPTY], [EMPTY, EMPTY, EMPTY]] NegInfinity Infinity
     = Inr (Num 0, Action (0, 0))"
  by (simp only: search_eval cong: if_weak_cong)

lemma minimax_play_0:
  "minimax [[EMPTY, EMPTY, EMPTY], [EMPTY, EMPTY, EMPTY], [EMPTY, EMPTY, EMPTY]] = Inr (Action (0, 0))"
  unfolding minimax_def maxValue_initialState
  by (simp only: minimax_eval cong: if_weak_cong)

lemma minimax_play_1:
  "minimax [[MarkX, EMPTY, EMPTY], [EMPTY, EMPTY, EMPTY], [EMPTY, EMPTY, EMPTY]] = Inr (Action (1, 1))"
  by (simp only: minimax_eval cong: if_weak_cong)

lemma minimax_play_2:
  "minimax [[MarkX, EMPTY, EMPTY], [EMPTY, MarkO, EMPTY], [EMPTY, EMPTY, EMPTY]] = Inr (Action (0, 1))"
  by (simp only: minimax_eval cong: if_weak_cong)

lemma minimax_play_3:
  "minimax [[MarkX, MarkX, EMPTY], [EMPTY, MarkO, EMPTY], [EMPTY, EMPTY, EMPTY]] = Inr (Action (0, 2))"
  by (simp only: minimax_eval cong: if_weak_cong)

lemma minimax_play_4:
  "minimax [[MarkX, MarkX, MarkO], [EMPTY, MarkO, EMPTY], [EMPTY, EMPTY, EMPTY]] = Inr (Action (2, 0))"
  by (simp only: minimax_eval cong: if_weak_cong)

lemma minimax_play_5:
  "minimax [[MarkX, MarkX, MarkO], [EMPTY, MarkO, EMPTY], [MarkX, EMPTY, EMPTY]] = Inr (Action (1, 0))"
  by (simp only: minimax_eval cong: if_weak_cong)

lemma minimax_play_6:
  "minimax [[MarkX, MarkX, MarkO], [MarkO, MarkO, EMPTY], [MarkX, EMPTY, EMPTY]] = Inr (Action (1, 2))"
  by (simp only: minimax_eval cong: if_weak_cong)

lemma minimax_play_7:
  "minimax [[MarkX, MarkX, MarkO], [MarkO, MarkO, MarkX], [MarkX, EMPTY, EMPTY]] = Inr (Action (2, 1))"
  by (simp only: minimax_eval cong: if_weak_cong)

lemma minimax_play_8:
  "minimax [[MarkX, MarkX, MarkO], [MarkO, MarkO, MarkX], [MarkX, MarkO, EMPTY]] = Inr (Action (2, 2))"
  by (simp only: minimax_eval cong: if_weak_cong)

lemma play_0:
  "\<not> terminal [[EMPTY, EMPTY, EMPTY], [EMPTY, EMPTY, EMPTY], [EMPTY, EMPTY, EMPTY]]"
  "result [[EMPTY, EMPTY, EMPTY], [EMPTY, EMPTY, EMPTY], [EMPTY, EMPTY, EMPTY]] (0, 0) = Inr [[MarkX, EMPTY, EMPTY], [EMPTY, EMPTY, EMPTY], [EMPTY, EMPTY, EMPTY]]"
  by (simp_all only: terminal_3x3 winner_3x3 line_def result_3x3 player_3x3 odd_marks.simps
        if_True if_False simp_thms mark.distinct option.distinct)

lemma play_1:
  "\<not> terminal [[MarkX, EMPTY, EMPTY], [EMPTY, EMPTY, EMPTY], [EMPTY, EMPTY, EMPTY]]"
  "result [[MarkX, EMPTY, EMPTY], [EMPTY, EMPTY, EMPTY], [EMPTY, EMPTY, EMPTY]] (1, 1) = Inr [[MarkX, EMPTY, EMPTY], [EMPTY, MarkO, EMPTY], [EMPTY, EMPTY, EMPTY]]"
  by (simp_all only: terminal_3x3 winner_3x3 line_def result_3x3 player_3x3 odd_marks.simps
        if_True if_False simp_thms mark.distinct option.distinct)

lemma play_2:
  "\<not> terminal [[MarkX, EMPTY, EMPTY], [EMPTY, MarkO, EMPTY], [EMPTY, EMPTY, EMPTY]]"
  "result [[MarkX, EMPTY, EMPTY], [EMPTY, MarkO, EMPTY], [EMPTY, EMPTY, EMPTY]] (0, 1) = Inr [[MarkX, MarkX, EMPTY], [EMPTY, MarkO, EMPTY], [EMPTY, EMPTY, EMPTY]]"
  by (simp_all only: terminal_3x3 winner_3x3 line_def result_3x3 player_3x3 odd_marks.simps
        if_True if_False simp_thms mark.distinct option.distinct)

lemma play_3:
  "\<not> terminal [[MarkX, MarkX, EMPTY], [EMPTY, MarkO, EMPTY], [EMPTY, EMPTY, EMPTY]]"
  "result [[MarkX, MarkX, EMPTY], [EMPTY, MarkO, EMPTY], [EMPTY, EMPTY, EMPTY]] (0, 2) = Inr [[MarkX, MarkX, MarkO], [EMPTY, MarkO, EMPTY], [EMPTY, EMPTY, EMPTY]]"
  by (simp_all only: terminal_3x3 winner_3x3 line_def result_3x3 player_3x3 odd_marks.simps
        if_True if_False simp_thms mark.distinct option.distinct)

lemma play_4:
  "\<not> terminal [[MarkX, MarkX, MarkO], [EMPTY, MarkO, EMPTY], [EMPTY, EMPTY, EMPTY]]"
  "result [[MarkX, MarkX, MarkO], [EMPTY, MarkO, EMPTY], [EMPTY, EMPTY, EMPTY]] (2, 0) = Inr [[MarkX, MarkX, MarkO], [EMPTY, MarkO, EMPTY], [MarkX, EMPTY, EMPTY]]"
  by (simp_all only: terminal_3x3 winner_3x3 line_def result_3x3 player_3x3 odd_marks.simps
        if_True if_False simp_thms mark.distinct option.distinct)

lemma play_5:
  "\<not> terminal [[MarkX, MarkX, MarkO], [EMPTY, MarkO, EMPTY], [MarkX, EMPTY, EMPTY]]"
  "result [[MarkX, MarkX, MarkO], [EMPTY, MarkO, EMPTY], [MarkX, EMPTY, EMPTY]] (1, 0) = Inr [[MarkX, MarkX, MarkO], [MarkO, MarkO, EMPTY], [MarkX, EMPTY, EMPTY]]"
  by (simp_all only: terminal_3x3 winner_3x3 line_def result_3x3 player_3x3 odd_marks.simps
        if_True if_False simp_thms mark.distinct option.distinct)

lemma play_6:
  "\<not> terminal [[MarkX, MarkX, MarkO], [MarkO, MarkO, EMPTY], [MarkX, EMPTY, EMPTY]]"
  "result [[MarkX, MarkX, MarkO], [MarkO, MarkO, EMPTY], [MarkX, EMPTY, EMPTY]] (1, 2) = Inr [[MarkX, MarkX, MarkO], [MarkO, MarkO, MarkX], [MarkX, EMPTY, EMPTY]]"
  by (simp_all only: terminal_3x3 winner_3x3 line_def result_3x3 player_3x3 odd_marks.simps
        if_True if_False simp_thms mark.distinct option.distinct)

lemma play_7:
  "\<not> terminal [[MarkX, MarkX, MarkO], [MarkO, MarkO, MarkX], [MarkX, EMPTY, EMPTY]]"
  "result [[MarkX, MarkX, MarkO], [MarkO, MarkO, MarkX], [MarkX, EMPTY, EMPTY]] (2, 1) = Inr [[MarkX, MarkX, MarkO], [MarkO, MarkO, MarkX], [MarkX, MarkO, EMPTY]]"
  by (simp_all only: terminal_3x3 winner_3x3 line_def result_3x3 player_3x3 odd_marks.simps
        if_True if_False simp_thms mark.distinct option.distinct)

lemma play_8:
  "\<not> terminal [[MarkX, MarkX, MarkO], [MarkO, MarkO, MarkX], [MarkX, MarkO, EMPTY]]"
  "result [[MarkX, MarkX, MarkO], [MarkO, MarkO, MarkX], [MarkX, MarkO, EMPTY]] (2, 2) = Inr [[MarkX, MarkX, MarkO], [MarkO, MarkO, MarkX], [MarkX, MarkO, MarkX]]"
  by (simp_all only: terminal_3x3 winner_3x3 line_def result_3x3 player_3x3 odd_marks.simps
        if_True if_False simp_thms mark.distinct option.distinct)

lemma play_9:
  "terminal [[MarkX, MarkX, MarkO], [MarkO, MarkO, MarkX], [MarkX, MarkO, MarkX]]"
  "winner [[MarkX, MarkX, MarkO], [MarkO, MarkO, MarkX], [MarkX, MarkO, MarkX]] = None"
  "actions [[MarkX, MarkX, MarkO], [MarkO, MarkO, MarkX], [MarkX, MarkO, MarkX]] = []"
  by (simp_all only: terminal_3x3 winner_3x3 actions_3x3 line_def append.simps
        if_True if_False simp_thms mark.distinct option.distinct)

section \<open>The claims\<close>



text \<open>
  C2: when both sides play the action of \<open>minimax\<close> from the initial board until the
  board is terminal, the game ends on a full board without a winning line: a draw.
\<close>

theorem self_play_draw:
  "selfPlay initialState = Inr [[MarkX, MarkX, MarkO], [MarkO, MarkO, MarkX], [MarkX, MarkO, MarkX]]
   \<and> terminal [[MarkX, MarkX, MarkO], [MarkO, MarkO, MarkX], [MarkX, MarkO, MarkX]]
   \<and> winner [[MarkX, MarkX, MarkO], [MarkO, MarkO, MarkX], [MarkX, MarkO, MarkX]] = None
   \<and> actions [[MarkX, MarkX, MarkO], [MarkO, MarkO, MarkX], [MarkX, MarkO, MarkX]] = []"
proof -
  have "selfPlay initialState = Inr [[MarkX, MarkX, MarkO], [MarkO, MarkO, MarkX], [MarkX, MarkO, MarkX]]"
    unfolding initialState_def
    by (simp only: selfPlay_step [OF play_0(1) minimax_play_0 play_0(2)] selfPlay_step [OF play_1(1) minimax_play_1 play_1(2)] selfPlay_step [OF play_2(1) minimax_play_2 play_2(2)] selfPlay_step [OF play_3(1) minimax_play_3 play_3(2)] selfPlay_step [OF play_4(1) minimax_play_4 play_4(2)] selfPlay_step [OF play_5(1) minimax_play_5 play_5(2)] selfPlay_step [OF play_6(1) minimax_play_6 play_6(2)] selfPlay_step [OF play_7(1) minimax_play_7 play_7(2)] selfPlay_step [OF play_8(1) minimax_play_8 play_8(2)]
          selfPlay_terminal [OF play_9(1)])
  with play_9 show ?thesis by simp
qed

theorem self_play_draw_witness:
  "selfPlay initialState = Inr [[MarkX, MarkX, MarkO], [MarkO, MarkO, MarkX], [MarkX, MarkO, MarkX]]"
  by (rule self_play_draw [THEN conjunct1])

text \<open>
  C3: on a well-formed board \<open>result\<close> throws exactly when a coordinate is not among
  0, 1, 2 or the cell is not empty, and what it throws is the error of an invalid
  action. When it throws, the store is the one it was called in: no object has been
  written or created. The search, which calls \<open>result\<close>, never throws on a well-formed
  board; the other operations have no statement that throws.
\<close>

theorem result_fails_closed:
  assumes "wf_board board"
  shows "(\<forall>x y. (\<exists>e. result board (x, y) = Inl e)
             \<longleftrightarrow> (x \<notin> {0, 1, 2} \<or> y \<notin> {0, 1, 2} \<or> board ! nat x ! nat y \<noteq> EMPTY))
       \<and> (\<forall>action e. result board action = Inl e \<longrightarrow> e = InvalidAction)
       \<and> (\<forall>s ref action e. board_at s ref = Some board \<and> result board action = Inl e
             \<longrightarrow> result_store s ref action = (s, Inl e))
       \<and> (\<exists>r. minimax board = Inr r)"
proof (intro conjI allI impI)
  fix x y
  show "(\<exists>e. result board (x, y) = Inl e)
      \<longleftrightarrow> (x \<notin> {0, 1, 2} \<or> y \<notin> {0, 1, 2} \<or> board ! nat x ! nat y \<noteq> EMPTY)"
    using result_fails_iff_wf [OF assms, of x y] result_only_InvalidAction [OF assms, of "(x, y)"]
    by blast
next
  fix action e assume "result board action = Inl e"
  with assms show "e = InvalidAction" by (rule result_only_InvalidAction)
next
  fix s ref action e
  assume "board_at s ref = Some board \<and> result board action = Inl e"
  then show "result_store s ref action = (s, Inl e)"
    by (simp add: result_store_fails)
next
  from assms show "\<exists>r. minimax board = Inr r" by (rule minimax_total)
qed

theorem result_fails_closed_witness:
  "wf_board initialState
   \<and> (\<exists>e. result initialState (3, 0) = Inl e)
   \<and> board_at [Rows [1, 2, 3], Cells [EMPTY, EMPTY, EMPTY], Cells [EMPTY, EMPTY, EMPTY],
         Cells [EMPTY, EMPTY, EMPTY]] 0 = Some initialState
   \<and> result_store [Rows [1, 2, 3], Cells [EMPTY, EMPTY, EMPTY], Cells [EMPTY, EMPTY, EMPTY],
         Cells [EMPTY, EMPTY, EMPTY]] 0 (3, 0)
       = ([Rows [1, 2, 3], Cells [EMPTY, EMPTY, EMPTY], Cells [EMPTY, EMPTY, EMPTY],
           Cells [EMPTY, EMPTY, EMPTY]], Inl InvalidAction)
   \<and> (\<exists>r. minimax initialState = Inr r)"
proof -
  note t = result_fails_closed [OF wf_initialState]
  let ?s = "[Rows [1, 2, 3], Cells [EMPTY, EMPTY, EMPTY], Cells [EMPTY, EMPTY, EMPTY],
         Cells [EMPTY, EMPTY, EMPTY]]"
  have f: "result initialState (3, 0) = Inl InvalidAction"
    by (simp add: acceptableValues_def)
  have b: "board_at ?s 0 = Some initialState"
    by (simp add: board_at_def row_at_def initialState_def)
  have 1: "\<exists>e. result initialState (3, 0) = Inl e"
    by (rule t [THEN conjunct1, rule_format, THEN iffD2]) simp
  have 2: "result_store ?s 0 (3, 0) = (?s, Inl InvalidAction)"
    by (rule t [THEN conjunct2, THEN conjunct2, THEN conjunct1, rule_format, OF conjI [OF b f]])
  have 3: "\<exists>r. minimax initialState = Inr r"
    by (rule t [THEN conjunct2, THEN conjunct2, THEN conjunct2])
  from wf_initialState 1 b 2 3 show ?thesis by (intro conjI)
qed

text \<open>
  C4: on a well-formed board, for an action with both coordinates among 0, 1, 2 on an
  empty cell, \<open>result\<close> returns a well-formed board that holds the mark of the player
  to move in that cell and agrees with the given board in every other cell. In the
  store the returned board is a new object, every object that existed before the call
  is as it was, and the given board still reads as before.
\<close>

theorem result_places_mark:
  assumes "wf_board board" and "x \<in> {0, 1, 2}" and "y \<in> {0, 1, 2}"
    and "board ! nat x ! nat y = EMPTY"
  shows "\<exists>resultBoard. result board (x, y) = Inr resultBoard \<and> wf_board resultBoard
           \<and> resultBoard ! nat x ! nat y = player board
           \<and> (\<forall>i < 3. \<forall>j < 3. (i, j) \<noteq> (nat x, nat y) \<longrightarrow> resultBoard ! i ! j = board ! i ! j)
           \<and> (\<forall>s ref. board_at s ref = Some board \<longrightarrow>
                 (\<exists>s'. result_store s ref (x, y) = (s', Inr (length s))
                    \<and> board_at s' (length s) = Some resultBoard
                    \<and> take (length s) s' = s \<and> board_at s' ref = Some board))"
proof -
  from assms(1,2) have lx: "nat x < length board" and ly: "length (board ! nat x) = 3"
    by (auto simp: wf_board_def list_all_length)
  with assms(3) have ly': "nat y < length (board ! nat x)" by auto
  let ?r = "board[nat x := (board ! nat x)[nat y := player board]]"
  from assms lx ly have r: "result board (x, y) = Inr ?r"
    by (auto simp: acceptableValues_def)
  from assms(1) r have "wf_board ?r" by (rule result_wf)
  moreover from lx ly' have "?r ! nat x ! nat y = player board" by simp
  moreover have "\<forall>i < 3. \<forall>j < 3. (i, j) \<noteq> (nat x, nat y) \<longrightarrow> ?r ! i ! j = board ! i ! j"
    using lx by (auto simp: nth_list_update)
  moreover have "\<forall>s ref. board_at s ref = Some board \<longrightarrow>
                 (\<exists>s'. result_store s ref (x, y) = (s', Inr (length s))
                    \<and> board_at s' (length s) = Some ?r
                    \<and> take (length s) s' = s \<and> board_at s' ref = Some board)"
    using result_store_succeeds [OF _ r] by blast
  ultimately show ?thesis using r by blast
qed

theorem result_places_mark_witness:
  "(wf_board initialState \<and> (1::int) \<in> {0, 1, 2} \<and> (2::int) \<in> {0, 1, 2}
      \<and> initialState ! nat 1 ! nat 2 = EMPTY)
   \<and> (\<exists>resultBoard. result initialState (1, 2) = Inr resultBoard \<and> wf_board resultBoard
           \<and> resultBoard ! nat 1 ! nat 2 = player initialState
           \<and> (\<forall>i < 3. \<forall>j < 3. (i, j) \<noteq> (nat 1, nat 2) \<longrightarrow> resultBoard ! i ! j = initialState ! i ! j)
           \<and> (\<forall>s ref. board_at s ref = Some initialState \<longrightarrow>
                 (\<exists>s'. result_store s ref (1, 2) = (s', Inr (length s))
                    \<and> board_at s' (length s) = Some resultBoard
                    \<and> take (length s) s' = s \<and> board_at s' ref = Some initialState)))"
proof -
  have 1: "(1::int) \<in> {0, 1, 2}" and 2: "(2::int) \<in> {0, 1, 2}" by simp_all
  have e: "initialState ! nat 1 ! nat 2 = EMPTY" by (simp add: initialState_def numeral_2_eq_2)
  show ?thesis
    by (rule conjI [OF conjI [OF wf_initialState conjI [OF 1 conjI [OF 2 e]]]
          result_places_mark [OF wf_initialState 1 2 e]])
qed

text \<open>
  C5: on a well-formed terminal board \<open>minimax\<close> returns \<^verbatim>\<open>null\<close> and does not throw;
  on a board that is reachable from the initial board and is not terminal it returns
  an action that \<open>result\<close> accepts: both coordinates are among 0, 1, 2 and the cell is
  empty.
\<close>

theorem minimax_null_or_accepted:
  "(wf_board board \<and> terminal board \<longrightarrow> minimax board = Inr Null)
   \<and> (reachable board \<and> \<not> terminal board \<longrightarrow>
        (\<exists>x y child. minimax board = Inr (Action (x, y))
           \<and> x \<in> {0, 1, 2} \<and> y \<in> {0, 1, 2} \<and> board ! nat x ! nat y = EMPTY
           \<and> result board (x, y) = Inr child))"
proof (intro conjI impI)
  assume "wf_board board \<and> terminal board"
  then show "minimax board = Inr Null" by (simp add: minimax_def)
next
  assume r: "reachable board \<and> \<not> terminal board"
  then have wf: "wf_board board" by (simp add: reachable_wf)
  from minimax_chooses [OF wf] r obtain action
    where m: "minimax board = Inr (Action action)"
      and f: "find (optimal board) (actions board) = Some action" by blast
  obtain x y where xy: "action = (x, y)" by (cases action)
  from f have "action \<in> set (actions board)" by (auto simp: find_Some_iff)
  with wf obtain child where ch: "result board (x, y) = Inr child"
    unfolding xy using actions_accepted by blast
  from result_InrD [OF ch] m ch show "\<exists>x y child. minimax board = Inr (Action (x, y))
           \<and> x \<in> {0, 1, 2} \<and> y \<in> {0, 1, 2} \<and> board ! nat x ! nat y = EMPTY
           \<and> result board (x, y) = Inr child"
    unfolding xy by blast
qed

theorem minimax_null_or_accepted_witness:
  "((wf_board [[MarkX, MarkX, MarkX], [MarkO, MarkO, EMPTY], [EMPTY, EMPTY, EMPTY]]
      \<and> terminal [[MarkX, MarkX, MarkX], [MarkO, MarkO, EMPTY], [EMPTY, EMPTY, EMPTY]])
    \<and> minimax [[MarkX, MarkX, MarkX], [MarkO, MarkO, EMPTY], [EMPTY, EMPTY, EMPTY]] = Inr Null)
   \<and> ((reachable initialState \<and> \<not> terminal initialState)
    \<and> (\<exists>x y child. minimax initialState = Inr (Action (x, y))
           \<and> x \<in> {0, 1, 2} \<and> y \<in> {0, 1, 2} \<and> initialState ! nat x ! nat y = EMPTY
           \<and> result initialState (x, y) = Inr child))"
proof -
  have "terminal [[MarkX, MarkX, MarkX], [MarkO, MarkO, EMPTY], [EMPTY, EMPTY, EMPTY]]"
    unfolding terminal_3x3 winner_3x3 line_def by simp
  with wf_board_3x3
  have t: "wf_board [[MarkX, MarkX, MarkX], [MarkO, MarkO, EMPTY], [EMPTY, EMPTY, EMPTY]]
      \<and> terminal [[MarkX, MarkX, MarkX], [MarkO, MarkO, EMPTY], [EMPTY, EMPTY, EMPTY]]"
    by (rule conjI)
  have i: "reachable initialState \<and> \<not> terminal initialState"
    by (rule conjI [OF reachable_initial not_terminal_initialState])
  show ?thesis
    by (rule conjI [OF conjI [OF t minimax_null_or_accepted [THEN conjunct1, THEN mp, OF t]]
          conjI [OF i minimax_null_or_accepted [THEN conjunct2, THEN mp, OF i]]])
qed

text \<open>
  C6: on the initial board \<open>minimax\<close> returns the action (0, 0). The actions are tried
  row by row, and (0, 0) is the first of them that is optimal.
\<close>

theorem minimax_opening:
  "minimax initialState = Inr (Action (0, 0))
   \<and> actions initialState = [(0, 0), (0, 1), (0, 2), (1, 0), (1, 1), (1, 2), (2, 0), (2, 1), (2, 2)]
   \<and> find (optimal initialState) (actions initialState) = Some (0, 0)"
proof -
  have m: "minimax initialState = Inr (Action (0, 0))"
    unfolding initialState_def by (rule minimax_play_0)
  have a: "actions initialState = [(0, 0), (0, 1), (0, 2), (1, 0), (1, 1), (1, 2), (2, 0), (2, 1), (2, 2)]"
    unfolding initialState_def actions_3x3 by simp
  from minimax_chooses [OF wf_initialState not_terminal_initialState] m
  have "find (optimal initialState) (actions initialState) = Some (0, 0)" by simp
  with m a show ?thesis by simp
qed

theorem minimax_opening_witness:
  "minimax initialState = Inr (Action (0, 0))"
  by (rule minimax_opening [THEN conjunct1])

text \<open>
  C7: on the board with X X _ in the first row and O O _ in the second, four cells are
  occupied, X is to move, and \<open>minimax\<close> returns the action (0, 2), which completes the
  first row for X.
\<close>

theorem minimax_completes_top_row:
  "player [[MarkX, MarkX, EMPTY], [MarkO, MarkO, EMPTY], [EMPTY, EMPTY, EMPTY]] = MarkX
   \<and> minimax [[MarkX, MarkX, EMPTY], [MarkO, MarkO, EMPTY], [EMPTY, EMPTY, EMPTY]] = Inr (Action (0, 2))
   \<and> result [[MarkX, MarkX, EMPTY], [MarkO, MarkO, EMPTY], [EMPTY, EMPTY, EMPTY]] (0, 2)
       = Inr [[MarkX, MarkX, MarkX], [MarkO, MarkO, EMPTY], [EMPTY, EMPTY, EMPTY]]
   \<and> winner [[MarkX, MarkX, MarkX], [MarkO, MarkO, EMPTY], [EMPTY, EMPTY, EMPTY]] = Some MarkX"
proof -
  have "minimax [[MarkX, MarkX, EMPTY], [MarkO, MarkO, EMPTY], [EMPTY, EMPTY, EMPTY]] = Inr (Action (0, 2))"
    by (simp only: minimax_eval cong: if_weak_cong)
  then show ?thesis
    unfolding player_3x3 result_02 winner_3x3 line_def by simp
qed

theorem minimax_completes_top_row_witness:
  "minimax [[MarkX, MarkX, EMPTY], [MarkO, MarkO, EMPTY], [EMPTY, EMPTY, EMPTY]] = Inr (Action (0, 2))"
  by (rule minimax_completes_top_row [THEN conjunct2, THEN conjunct1])

text \<open>
  C8, as the claim states it, fails: \<open>winner\<close> returns a mark and nothing else. On the
  two boards below it returns the same value, \<^verbatim>\<open>'X'\<close>, although the complete lines are
  different ones; the line is what the source highlights, not what it returns.
\<close>

theorem winner_returns_mark_only:
  "winner [[MarkX, MarkX, MarkX], [MarkO, MarkO, EMPTY], [EMPTY, EMPTY, EMPTY]] = Some MarkX
   \<and> winner [[MarkO, MarkO, EMPTY], [MarkX, MarkX, MarkX], [EMPTY, EMPTY, EMPTY]] = Some MarkX
   \<and> highlighted [[MarkX, MarkX, MarkX], [MarkO, MarkO, EMPTY], [EMPTY, EMPTY, EMPTY]] = [(0, 0), (0, 1), (0, 2)]
   \<and> highlighted [[MarkO, MarkO, EMPTY], [MarkX, MarkX, MarkX], [EMPTY, EMPTY, EMPTY]] = [(1, 0), (1, 1), (1, 2)]"
  unfolding winner_3x3 highlighted_def scan_3x3 line_def by simp

text \<open>
  C8, amended: \<open>winner\<close> goes through the eight lines, three rows, three columns and two
  diagonals, in this order, and stops at the first line whose three cells are equal
  and not empty. It returns the mark of that line, and only the mark; the cells of the
  line are highlighted. Without such a line it returns \<^verbatim>\<open>null\<close> and highlights nothing.
  On the board with X X X in the first row and O O _ in the second it returns X,
  highlights (0, 0), (0, 1), (0, 2), and the utility of the board is 1.
\<close>

theorem winner_first_complete_line:
  assumes "wf_board board"
  shows "winningConditions =
           map (\<lambda>i. [(i, 0), (i, 1), (i, 2)]) [0, 1, 2]
           @ map (\<lambda>j. [(0, j), (1, j), (2, j)]) [0, 1, 2]
           @ [[(0, 0), (1, 1), (2, 2)], [(0, 2), (1, 1), (2, 0)]]
       \<and> (case find (complete board) winningConditions of
             None \<Rightarrow> winner board = None \<and> highlighted board = []
           | Some condition \<Rightarrow>
               winner board = Some (cell board (hd condition))
               \<and> cell board (hd condition) \<noteq> EMPTY \<and> highlighted board = condition)
       \<and> winner [[MarkX, MarkX, MarkX], [MarkO, MarkO, EMPTY], [EMPTY, EMPTY, EMPTY]] = Some MarkX
       \<and> highlighted [[MarkX, MarkX, MarkX], [MarkO, MarkO, EMPTY], [EMPTY, EMPTY, EMPTY]] = [(0, 0), (0, 1), (0, 2)]
       \<and> utility [[MarkX, MarkX, MarkX], [MarkO, MarkO, EMPTY], [EMPTY, EMPTY, EMPTY]] = 1"
proof (intro conjI)
  show "winningConditions =
           map (\<lambda>i. [(i, 0), (i, 1), (i, 2)]) [0, 1, 2]
           @ map (\<lambda>j. [(0, j), (1, j), (2, j)]) [0, 1, 2]
           @ [[(0, 0), (1, 1), (2, 2)], [(0, 2), (1, 1), (2, 0)]]"
    by (simp add: winningConditions_def)
  show "case find (complete board) winningConditions of
             None \<Rightarrow> winner board = None \<and> highlighted board = []
           | Some condition \<Rightarrow>
               winner board = Some (cell board (hd condition))
               \<and> cell board (hd condition) \<noteq> EMPTY \<and> highlighted board = condition"
  proof (cases "find (complete board) winningConditions")
    case None
    then show ?thesis by (simp only: winner_find highlighted_find option.case option.map)
  next
    case (Some condition)
    then have w: "winner board = Some (cell board (hd condition))"
      and h: "highlighted board = condition"
      by (simp_all only: winner_find highlighted_find option.case option.map)
    from winner_SomeD [OF w] have "cell board (hd condition) \<noteq> EMPTY" ..
    with w h show ?thesis unfolding Some by simp
  qed
  show "winner [[MarkX, MarkX, MarkX], [MarkO, MarkO, EMPTY], [EMPTY, EMPTY, EMPTY]] = Some MarkX"
    unfolding winner_3x3 line_def by simp
  show "highlighted [[MarkX, MarkX, MarkX], [MarkO, MarkO, EMPTY], [EMPTY, EMPTY, EMPTY]] = [(0, 0), (0, 1), (0, 2)]"
    unfolding highlighted_def scan_3x3 line_def by simp
  show "utility [[MarkX, MarkX, MarkX], [MarkO, MarkO, EMPTY], [EMPTY, EMPTY, EMPTY]] = 1"
    unfolding utility_def winner_3x3 line_def by simp
qed

theorem winner_first_complete_line_witness:
  "wf_board [[MarkX, MarkX, MarkX], [MarkO, MarkO, EMPTY], [EMPTY, EMPTY, EMPTY]]
   \<and> (winningConditions =
           map (\<lambda>i. [(i, 0), (i, 1), (i, 2)]) [0, 1, 2]
           @ map (\<lambda>j. [(0, j), (1, j), (2, j)]) [0, 1, 2]
           @ [[(0, 0), (1, 1), (2, 2)], [(0, 2), (1, 1), (2, 0)]]
       \<and> (case find (complete [[MarkX, MarkX, MarkX], [MarkO, MarkO, EMPTY], [EMPTY, EMPTY, EMPTY]]) winningConditions of
             None \<Rightarrow> winner [[MarkX, MarkX, MarkX], [MarkO, MarkO, EMPTY], [EMPTY, EMPTY, EMPTY]] = None \<and> highlighted [[MarkX, MarkX, MarkX], [MarkO, MarkO, EMPTY], [EMPTY, EMPTY, EMPTY]] = []
           | Some condition \<Rightarrow>
               winner [[MarkX, MarkX, MarkX], [MarkO, MarkO, EMPTY], [EMPTY, EMPTY, EMPTY]] = Some (cell [[MarkX, MarkX, MarkX], [MarkO, MarkO, EMPTY], [EMPTY, EMPTY, EMPTY]] (hd condition))
               \<and> cell [[MarkX, MarkX, MarkX], [MarkO, MarkO, EMPTY], [EMPTY, EMPTY, EMPTY]] (hd condition) \<noteq> EMPTY \<and> highlighted [[MarkX, MarkX, MarkX], [MarkO, MarkO, EMPTY], [EMPTY, EMPTY, EMPTY]] = condition)
       \<and> winner [[MarkX, MarkX, MarkX], [MarkO, MarkO, EMPTY], [EMPTY, EMPTY, EMPTY]] = Some MarkX
       \<and> highlighted [[MarkX, MarkX, MarkX], [MarkO, MarkO, EMPTY], [EMPTY, EMPTY, EMPTY]] = [(0, 0), (0, 1), (0, 2)]
       \<and> utility [[MarkX, MarkX, MarkX], [MarkO, MarkO, EMPTY], [EMPTY, EMPTY, EMPTY]] = 1)"
  by (rule conjI [OF wf_board_3x3 winner_first_complete_line [OF wf_board_3x3]])

text \<open>
  C9, as the claim states it, fails: the value that \<open>utility\<close> gives does not tell a
  drawn board from an unfinished one. It is 0 on the initial board, which is not
  terminal, and 0 on the full board below, which is terminal and has no winner.
\<close>

theorem utility_same_on_draw_and_unfinished:
  "utility initialState = 0 \<and> \<not> terminal initialState
   \<and> utility [[MarkX, MarkX, MarkO], [MarkO, MarkO, MarkX], [MarkX, MarkO, MarkX]] = 0
   \<and> terminal [[MarkX, MarkX, MarkO], [MarkO, MarkO, MarkX], [MarkX, MarkO, MarkX]]"
  unfolding initialState_def utility_def terminal_3x3 winner_3x3 line_def by simp

text \<open>
  C9, amended: \<open>utility\<close> is a total function of the board with three values. On a
  board reached by legal play it is 1 exactly when X has a complete line, - 1 exactly
  when O has one, and 0 exactly when neither has, on a drawn board as on an unfinished
  one. Whether the game is over is the separate answer of \<open>terminal\<close>, which holds
  exactly when there is a complete line or no empty cell.
\<close>

theorem utility_three_valued:
  assumes "legal_play board"
  shows "utility board \<in> {1, 0, - 1}
       \<and> (utility board = 1 \<longleftrightarrow> has_line MarkX board)
       \<and> (utility board = - 1 \<longleftrightarrow> has_line MarkO board)
       \<and> (utility board = 0 \<longleftrightarrow> \<not> has_line MarkX board \<and> \<not> has_line MarkO board)
       \<and> (terminal board \<longleftrightarrow> has_line MarkX board \<or> has_line MarkO board \<or> empties board = 0)"
proof -
  note one = one_winner [OF assms]
  have none: "winner board = None \<longleftrightarrow> \<not> has_line MarkX board \<and> \<not> has_line MarkO board"
    unfolding winner_None_iff using mark_cases by (metis mark.distinct(1,3))
  have x: "winner board = Some MarkX \<longleftrightarrow> has_line MarkX board"
  proof
    assume "winner board = Some MarkX"
    then show "has_line MarkX board" by (simp add: winner_SomeD)
  next
    assume l: "has_line MarkX board"
    with none obtain m where m: "winner board = Some m" by (cases "winner board") auto
    from winner_SomeD [OF m] mark_cases [of m] l one have "m = MarkX" by auto
    with m show "winner board = Some MarkX" by simp
  qed
  have o: "winner board = Some MarkO \<longleftrightarrow> has_line MarkO board"
  proof
    assume "winner board = Some MarkO"
    then show "has_line MarkO board" by (simp add: winner_SomeD)
  next
    assume l: "has_line MarkO board"
    with none obtain m where m: "winner board = Some m" by (cases "winner board") auto
    from winner_SomeD [OF m] mark_cases [of m] l one have "m = MarkO" by auto
    with m show "winner board = Some MarkO" by simp
  qed
  have "utility board \<in> {1, 0, - 1}" by (simp add: utility_def Let_def)
  moreover have "terminal board \<longleftrightarrow> has_line MarkX board \<or> has_line MarkO board \<or> empties board = 0"
    unfolding terminal_def actions_empty_iff none by simp
  ultimately show ?thesis
    unfolding utility_one utility_minus_one utility_zero x o none by blast
qed

theorem utility_three_valued_witness:
  "legal_play initialState
   \<and> (utility initialState \<in> {1, 0, - 1}
       \<and> (utility initialState = 1 \<longleftrightarrow> has_line MarkX initialState)
       \<and> (utility initialState = - 1 \<longleftrightarrow> has_line MarkO initialState)
       \<and> (utility initialState = 0 \<longleftrightarrow> \<not> has_line MarkX initialState \<and> \<not> has_line MarkO initialState)
       \<and> (terminal initialState
            \<longleftrightarrow> has_line MarkX initialState \<or> has_line MarkO initialState \<or> empties initialState = 0))"
  by (rule conjI [OF legal_initial utility_three_valued [OF legal_initial]])

text \<open>
  C10: on every board that is reachable from the initial board by successful calls of
  \<open>result\<close> the number of X marks exceeds the number of O marks by 0 or by 1; the
  marks alternate: X is to move exactly when the two numbers are equal, which is
  exactly when the number of occupied cells is even.
\<close>

theorem marks_alternate:
  assumes "reachable board"
  shows "int (count_of MarkX board) - int (count_of MarkO board) \<in> {0, 1}
       \<and> (player board = MarkX \<longleftrightarrow> count_of MarkX board = count_of MarkO board)
       \<and> (player board = MarkO \<longleftrightarrow> count_of MarkX board = count_of MarkO board + 1)
       \<and> (player board = MarkX \<longleftrightarrow> even (count_marks board))"
proof -
  have "(count_of MarkX board = count_of MarkO board \<and> player board = MarkX)
      \<or> (count_of MarkX board = count_of MarkO board + 1 \<and> player board = MarkO)"
    using assms
  proof (induction rule: reachable.induct)
    case reachable_initial
    show ?case by (simp add: initialState_def count_of_def player_def count_marks_def)
  next
    case (reachable_result board action resultBoard)
    from count_of_result [OF reachable_result(2), of MarkX]
      count_of_result [OF reachable_result(2), of MarkO]
      player_result [OF reachable_result(2)] reachable_result.IH
    show ?case by auto
  qed
  then show ?thesis by (auto simp: player_def)
qed

theorem marks_alternate_witness:
  "reachable [[MarkX, EMPTY, EMPTY], [EMPTY, EMPTY, EMPTY], [EMPTY, EMPTY, EMPTY]]
   \<and> (int (count_of MarkX [[MarkX, EMPTY, EMPTY], [EMPTY, EMPTY, EMPTY], [EMPTY, EMPTY, EMPTY]])
        - int (count_of MarkO [[MarkX, EMPTY, EMPTY], [EMPTY, EMPTY, EMPTY], [EMPTY, EMPTY, EMPTY]])
         \<in> {0, 1}
     \<and> (player [[MarkX, EMPTY, EMPTY], [EMPTY, EMPTY, EMPTY], [EMPTY, EMPTY, EMPTY]] = MarkX
           \<longleftrightarrow> count_of MarkX [[MarkX, EMPTY, EMPTY], [EMPTY, EMPTY, EMPTY], [EMPTY, EMPTY, EMPTY]]
               = count_of MarkO [[MarkX, EMPTY, EMPTY], [EMPTY, EMPTY, EMPTY], [EMPTY, EMPTY, EMPTY]])
     \<and> (player [[MarkX, EMPTY, EMPTY], [EMPTY, EMPTY, EMPTY], [EMPTY, EMPTY, EMPTY]] = MarkO
           \<longleftrightarrow> count_of MarkX [[MarkX, EMPTY, EMPTY], [EMPTY, EMPTY, EMPTY], [EMPTY, EMPTY, EMPTY]]
               = count_of MarkO [[MarkX, EMPTY, EMPTY], [EMPTY, EMPTY, EMPTY], [EMPTY, EMPTY, EMPTY]] + 1)
     \<and> (player [[MarkX, EMPTY, EMPTY], [EMPTY, EMPTY, EMPTY], [EMPTY, EMPTY, EMPTY]] = MarkX
           \<longleftrightarrow> even (count_marks [[MarkX, EMPTY, EMPTY], [EMPTY, EMPTY, EMPTY], [EMPTY, EMPTY, EMPTY]])))"
proof -
  have "result initialState (0, 0) = Inr [[MarkX, EMPTY, EMPTY], [EMPTY, EMPTY, EMPTY], [EMPTY, EMPTY, EMPTY]]"
    unfolding initialState_def result_00 player_3x3 by simp
  with reachable_initial
  have r: "reachable [[MarkX, EMPTY, EMPTY], [EMPTY, EMPTY, EMPTY], [EMPTY, EMPTY, EMPTY]]"
    by (rule reachable_result)
  show ?thesis by (rule conjI [OF r marks_alternate [OF r]])
qed

end
